theory Spec2Isabelle
  imports Main "HOL-Library.Word"
begin

section \<open>Text\<close>

text \<open>
  A Python \<^verbatim>\<open>str\<close> is a sequence of Unicode code points, a \<^verbatim>\<open>bytes\<close> object a sequence of
  octets. Literals of the source are written through \<open>ascii\<close>.
\<close>

type_synonym ustr = "nat list"

type_synonym bytes = "8 word list"

definition ascii :: "string \<Rightarrow> ustr" where
  "ascii s = map of_char s"

definition octets :: "string \<Rightarrow> bytes" where
  "octets s = map of_char s"

subsection \<open>\<^verbatim>\<open>bytes.decode('utf-8', errors='ignore')\<close>\<close>

text \<open>
  The decoder of line 51. An octet that cannot start a sequence is skipped alone; a sequence
  broken by an octet that is no continuation is skipped up to that octet, which is decoded
  afresh; a sequence cut off by the end of the data is skipped whole. Overlong forms,
  surrogates and code points past U+10FFFF are rejected at their second octet.
\<close>

definition is_cont :: "nat \<Rightarrow> bool" where
  "is_cont b = (128 \<le> b \<and> b < 192)"

fun utf8_ignore :: "nat list \<Rightarrow> ustr" where
  "utf8_ignore [] = []"
| "utf8_ignore (b # bs) =
     (if b < 128 then b # utf8_ignore bs
      else if b < 194 then utf8_ignore bs
      else if b < 224 then
        (case bs of
           [] \<Rightarrow> []
         | c # cs \<Rightarrow>
             if is_cont c then ((b - 192) * 64 + (c - 128)) # utf8_ignore cs
             else utf8_ignore bs)
      else if b < 240 then
        (case bs of
           [] \<Rightarrow> []
         | c # cs \<Rightarrow>
             if \<not> is_cont c \<or> (b = 224 \<and> c < 160) \<or> (b = 237 \<and> 160 \<le> c)
             then utf8_ignore bs
             else (case cs of
                     [] \<Rightarrow> []
                   | d # ds \<Rightarrow>
                       if is_cont d
                       then ((b - 224) * 4096 + (c - 128) * 64 + (d - 128)) # utf8_ignore ds
                       else utf8_ignore cs))
      else if b < 245 then
        (case bs of
           [] \<Rightarrow> []
         | c # cs \<Rightarrow>
             if \<not> is_cont c \<or> (b = 240 \<and> c < 144) \<or> (b = 244 \<and> 144 \<le> c)
             then utf8_ignore bs
             else (case cs of
                     [] \<Rightarrow> []
                   | d # ds \<Rightarrow>
                       if \<not> is_cont d then utf8_ignore cs
                       else (case ds of
                               [] \<Rightarrow> []
                             | e # es \<Rightarrow>
                                 if is_cont e
                                 then ((b - 240) * 262144 + (c - 128) * 4096
                                       + (d - 128) * 64 + (e - 128)) # utf8_ignore es
                                 else utf8_ignore ds)))
      else utf8_ignore bs)"

definition decode_utf8_ignore :: "bytes \<Rightarrow> ustr" where
  "decode_utf8_ignore bs = utf8_ignore (map unat bs)"

subsection \<open>\<^verbatim>\<open>str.strip()\<close>\<close>

text \<open>The code points for which \<^verbatim>\<open>str.isspace\<close> holds; \<^verbatim>\<open>strip\<close> removes them at both ends.\<close>

definition is_space :: "nat \<Rightarrow> bool" where
  "is_space c =
     ((9 \<le> c \<and> c \<le> 13) \<or> (28 \<le> c \<and> c \<le> 32) \<or> c = 133 \<or> c = 160 \<or> c = 5760
      \<or> (8192 \<le> c \<and> c \<le> 8202) \<or> c = 8232 \<or> c = 8233 \<or> c = 8239 \<or> c = 8287
      \<or> c = 12288)"

definition py_strip :: "ustr \<Rightarrow> ustr" where
  "py_strip s = rev (dropWhile is_space (rev (dropWhile is_space s)))"

subsection \<open>Decimal digits\<close>

text \<open>
  \<^verbatim>\<open>\d\<close> in a \<^verbatim>\<open>str\<close> pattern and \<^verbatim>\<open>float\<close> both accept every code point with the Unicode
  decimal-digit property, not only \<^verbatim>\<open>0\<close> to \<^verbatim>\<open>9\<close>. Which code points have it depends on the
  Unicode database of the interpreter; the database keeps the ten digits of a script in a
  run from its zero upwards. The parameter \<open>zs\<close> lists the zeros of the runs beyond ASCII;
  the ASCII digits are fixed.
\<close>

definition decimal_value :: "nat list \<Rightarrow> nat \<Rightarrow> nat option" where
  "decimal_value zs c =
     (if 48 \<le> c \<and> c \<le> 57 then Some (c - 48)
      else if c < 128 then None
      else (case find (\<lambda>z. z \<le> c \<and> c < z + 10) zs of
              None \<Rightarrow> None
            | Some z \<Rightarrow> Some (c - z)))"

definition is_decimal :: "nat list \<Rightarrow> nat \<Rightarrow> bool" where
  "is_decimal zs c = (decimal_value zs c \<noteq> None)"

text \<open>
  No code point of the database is both white space and a decimal digit; a list \<open>zs\<close> is
  a possible database when its runs keep clear of the white space.
\<close>

definition digits_apart :: "nat list \<Rightarrow> bool" where
  "digits_apart zs = list_all (\<lambda>z. list_all (\<lambda>c. \<not> is_space c) [z..<z + 10]) zs"

section \<open>Regular expressions\<close>

text \<open>
  The fragment of \<^verbatim>\<open>re\<close> that the pattern of line 55 is written in, matched the way
  \<^verbatim>\<open>re\<close> matches: by backtracking, alternatives tried from left to right, quantifiers
  greedy. A match state is the text still to be read and the groups captured so far;
  matching a pattern from a state gives the states it can end in, in the order in which
  backtracking reaches them.
\<close>

datatype rx =
    Eps
  | Chr nat
  | Set "nat list"
  | Dec
  | Opt rx
  | Star rx
  | Plus rx
  | Cat rx rx
  | Alt rx rx
  | Grp nat rx

type_synonym mstate = "ustr \<times> (nat \<times> ustr) list"

definition one_char :: "(nat \<Rightarrow> bool) \<Rightarrow> mstate \<Rightarrow> mstate list" where
  "one_char P st =
     (case fst st of [] \<Rightarrow> [] | c # s \<Rightarrow> if P c then [(s, snd st)] else [])"

text \<open>
  Greedy repetition: one more round is tried before stopping; a round that read nothing
  is not repeated. The fuel is the length of the text, which bounds the rounds that read.
\<close>

primrec star_iter :: "nat \<Rightarrow> (mstate \<Rightarrow> mstate list) \<Rightarrow> mstate \<Rightarrow> mstate list" where
  "star_iter 0 f st = [st]"
| "star_iter (Suc n) f st =
     concat (map (\<lambda>st'. if length (fst st') < length (fst st) then star_iter n f st' else [])
               (f st)) @ [st]"

definition star :: "(mstate \<Rightarrow> mstate list) \<Rightarrow> mstate \<Rightarrow> mstate list" where
  "star f st = star_iter (length (fst st)) f st"

definition capture :: "nat \<Rightarrow> mstate \<Rightarrow> mstate \<Rightarrow> mstate" where
  "capture n st st' =
     (fst st', (n, take (length (fst st) - length (fst st')) (fst st)) # snd st')"

primrec bt :: "nat list \<Rightarrow> rx \<Rightarrow> mstate \<Rightarrow> mstate list" where
  "bt zs Eps = (\<lambda>st. [st])"
| "bt zs (Chr c) = one_char (\<lambda>x. x = c)"
| "bt zs (Set cs) = one_char (\<lambda>x. x \<in> set cs)"
| "bt zs Dec = one_char (is_decimal zs)"
| "bt zs (Opt r) = (\<lambda>st. bt zs r st @ [st])"
| "bt zs (Star r) = star (bt zs r)"
| "bt zs (Plus r) = (\<lambda>st. concat (map (star (bt zs r)) (bt zs r st)))"
| "bt zs (Cat r1 r2) = (\<lambda>st. concat (map (bt zs r2) (bt zs r1 st)))"
| "bt zs (Alt r1 r2) = (\<lambda>st. bt zs r1 st @ bt zs r2 st)"
| "bt zs (Grp n r) = (\<lambda>st. map (capture n st) (bt zs r st))"

text \<open>
  \<^verbatim>\<open>re.search\<close>: the match is tried at every position of the text from the left, and the
  first position that matches wins; the result is the position and the captured groups.
\<close>

fun search_from :: "nat list \<Rightarrow> rx \<Rightarrow> nat \<Rightarrow> ustr \<Rightarrow> (nat \<times> (nat \<times> ustr) list) option" where
  "search_from zs r i s =
     (case bt zs r (s, []) of
        st # _ \<Rightarrow> Some (i, snd st)
      | [] \<Rightarrow> (case s of [] \<Rightarrow> None | _ # s' \<Rightarrow> search_from zs r (Suc i) s'))"

definition re_search :: "nat list \<Rightarrow> rx \<Rightarrow> ustr \<Rightarrow> (nat \<times> (nat \<times> ustr) list) option" where
  "re_search zs r s = search_from zs r 0 s"

definition group :: "(nat \<times> (nat \<times> ustr) list) \<Rightarrow> nat \<Rightarrow> ustr" where
  "group m n = (case map_of (snd m) n of Some g \<Rightarrow> g | None \<Rightarrow> [])"

fun lit :: "ustr \<Rightarrow> rx" where
  "lit [] = Eps"
| "lit (c # cs) = Cat (Chr c) (lit cs)"

text \<open>
  The pattern of line 55,
  \<^verbatim>\<open>Pred:([-+]?\d*\.\d+|[-+]?\d+),True:([-+]?\d*\.\d+|[-+]?\d+)\<close>.
\<close>

definition sign_rx :: rx where
  "sign_rx = Opt (Set (ascii ''-+''))"

definition number_rx :: rx where
  "number_rx =
     Alt (Cat sign_rx (Cat (Star Dec) (Cat (Chr (of_char CHR ''.'')) (Plus Dec))))
         (Cat sign_rx (Plus Dec))"

definition PATTERN :: rx where
  "PATTERN =
     Cat (lit (ascii ''Pred:'')) (Cat (Grp 1 number_rx)
       (Cat (lit (ascii '',True:'')) (Grp 2 number_rx)))"

section \<open>Floating-point numbers\<close>

text \<open>
  A Python \<^verbatim>\<open>float\<close> is an IEEE 754 binary64 number. \<open>Finite s m e\<close> is the number
  \<open>m * 2 ^ e\<close>, negated when \<open>s\<close> holds, with \<open>m < 2 ^ 53\<close> and \<open>- 1074 \<le> e \<le> 971\<close>, where
  \<open>2 ^ 52 \<le> m\<close> unless \<open>e = - 1074\<close> (zeros and subnormal numbers), so that every finite
  number has one representation and the two zeros differ in their sign.
\<close>

datatype pyfloat = Finite bool nat int | Infinity bool | NaN

fun bit_length :: "nat \<Rightarrow> nat" where
  "bit_length n = (if n = 0 then 0 else Suc (bit_length (n div 2)))"

declare bit_length.simps [simp del]

definition round_half_even :: "nat \<Rightarrow> nat \<Rightarrow> nat" where
  "round_half_even p q =
     (let d = p div q; r = p mod q
      in if 2 * r < q then d else if q < 2 * r then d + 1
         else if even d then d else d + 1)"

text \<open>\<open>scaled p q k\<close> is the fraction \<open>p / (q * 2 ^ k)\<close>, as a numerator and a denominator.\<close>

definition scaled :: "nat \<Rightarrow> nat \<Rightarrow> int \<Rightarrow> nat \<times> nat" where
  "scaled p q k = (if 0 \<le> k then (p, q * 2 ^ nat k) else (p * 2 ^ nat (- k), q))"

text \<open>
  \<open>binary64 s p q\<close> is the binary64 number nearest to \<open>p / q\<close>, negated when \<open>s\<close> holds, a tie
  going to the even significand: what a correctly rounded conversion or operation
  returns for that exact value. A magnitude that rounds past the largest finite number
  becomes an infinity.
\<close>

definition binary64 :: "bool \<Rightarrow> nat \<Rightarrow> nat \<Rightarrow> pyfloat" where
  "binary64 s p q =
     (if p = 0 then Finite s 0 (- 1074)
      else
        let k0 = int (bit_length p) - int (bit_length q);
            k = (if snd (scaled p q k0) \<le> fst (scaled p q k0) then k0 else k0 - 1);
            e = max (- 1074) (k - 52);
            m = round_half_even (fst (scaled p q e)) (snd (scaled p q e));
            e' = (if m = 2 ^ 53 then e + 1 else e);
            m' = (if m = 2 ^ 53 then 2 ^ 52 else m)
        in if 971 < e' then Infinity s else Finite s m' e')"

text \<open>Subtraction and \<^verbatim>\<open>abs\<close> of line 117.\<close>

fun fsub :: "pyfloat \<Rightarrow> pyfloat \<Rightarrow> pyfloat" where
  "fsub NaN _ = NaN"
| "fsub _ NaN = NaN"
| "fsub (Infinity s) (Infinity t) = (if s = t then NaN else Infinity s)"
| "fsub (Infinity s) (Finite _ _ _) = Infinity s"
| "fsub (Finite _ _ _) (Infinity t) = Infinity (\<not> t)"
| "fsub (Finite s m e) (Finite t n f) =
     (let g = min e f;
          a = (if s then - 1 else 1) * int m * 2 ^ nat (e - g);
          b = (if t then - 1 else 1) * int n * 2 ^ nat (f - g);
          d = a - b
      in if d = 0 then Finite (m = 0 \<and> n = 0 \<and> s \<and> \<not> t) 0 (- 1074)
         else binary64 (d < 0) (fst (scaled (nat \<bar>d\<bar>) 1 (- g))) (snd (scaled (nat \<bar>d\<bar>) 1 (- g))))"

fun fabs :: "pyfloat \<Rightarrow> pyfloat" where
  "fabs (Finite s m e) = Finite False m e"
| "fabs (Infinity s) = Infinity False"
| "fabs NaN = NaN"

subsection \<open>The format \<^verbatim>\<open>.4f\<close>\<close>

fun decimal_digits :: "nat \<Rightarrow> ustr" where
  "decimal_digits n = (if n < 10 then [48 + n] else decimal_digits (n div 10) @ [48 + n mod 10])"

declare decimal_digits.simps [simp del]

text \<open>
  The exact value rounded to four places, a tie going to the even digit, with at least one
  digit before the point and the sign of the number kept.
\<close>

fun format_4f :: "pyfloat \<Rightarrow> ustr" where
  "format_4f NaN = ascii ''nan''"
| "format_4f (Infinity s) = (if s then ascii ''-inf'' else ascii ''inf'')"
| "format_4f (Finite s m e) =
     (let r = round_half_even (fst (scaled (m * 10000) 1 (- e))) (snd (scaled (m * 10000) 1 (- e)));
          f = decimal_digits (r mod 10000)
      in (if s then ascii ''-'' else []) @ decimal_digits (r div 10000) @ ascii ''.''
         @ replicate (4 - length f) 48 @ f)"

subsection \<open>\<^verbatim>\<open>float(str)\<close>\<close>

datatype exn = SerialException | ValueError | IndexError | UnboundLocalError | OtherError

text \<open>
  \<^verbatim>\<open>float\<close> first turns every decimal digit into its ASCII digit and every white space
  into a blank; at a code point beyond ASCII that is neither, the text is cut off with a
  question mark, which no number contains.
\<close>

fun float_ascii :: "nat list \<Rightarrow> ustr \<Rightarrow> ustr" where
  "float_ascii zs [] = []"
| "float_ascii zs (c # s) =
     (if c < 127 then c # float_ascii zs s
      else if is_space c then 32 # float_ascii zs s
      else (case decimal_value zs c of
              None \<Rightarrow> [63]
            | Some d \<Rightarrow> (48 + d) # float_ascii zs s))"

definition ascii_space :: "nat \<Rightarrow> bool" where
  "ascii_space c = ((9 \<le> c \<and> c \<le> 13) \<or> c = 32)"

definition ascii_digit :: "nat \<Rightarrow> bool" where
  "ascii_digit c = (48 \<le> c \<and> c \<le> 57)"

text \<open>
  An underscore is allowed between two digits only, and is dropped. \<open>prev\<close> is the
  character before, 0 at the start.
\<close>

fun drop_underscores :: "nat \<Rightarrow> ustr \<Rightarrow> ustr option" where
  "drop_underscores prev [] = (if prev = 95 then None else Some [])"
| "drop_underscores prev (c # s) =
     (if c = 95 then (if ascii_digit prev then drop_underscores c s else None)
      else if prev = 95 \<and> \<not> ascii_digit c then None
      else map_option ((#) c) (drop_underscores c s))"

definition digits_value :: "ustr \<Rightarrow> nat" where
  "digits_value ds = foldl (\<lambda>v c. 10 * v + (c - 48)) 0 ds"

definition split_sign :: "ustr \<Rightarrow> bool \<times> ustr" where
  "split_sign s =
     (case s of
        [] \<Rightarrow> (False, [])
      | c # r \<Rightarrow> if c = 45 then (True, r) else if c = 43 then (False, r) else (False, s))"

text \<open>The exponent part: nothing, or \<^verbatim>\<open>e\<close> or \<^verbatim>\<open>E\<close>, a sign if any, and digits to the end.\<close>

definition exponent :: "ustr \<Rightarrow> int option" where
  "exponent s =
     (case s of
        [] \<Rightarrow> Some 0
      | c # r \<Rightarrow>
          if c = 101 \<or> c = 69 then
            (let ds = snd (split_sign r)
             in if ds \<noteq> [] \<and> list_all ascii_digit ds
                then Some ((if fst (split_sign r) then - 1 else 1) * int (digits_value ds))
                else None)
          else None)"

definition lower :: "nat \<Rightarrow> nat" where
  "lower c = (if 65 \<le> c \<and> c \<le> 90 then c + 32 else c)"

definition inf_or_nan :: "bool \<Rightarrow> ustr \<Rightarrow> pyfloat option" where
  "inf_or_nan s r =
     (if map lower r = ascii ''inf'' \<or> map lower r = ascii ''infinity'' then Some (Infinity s)
      else if map lower r = ascii ''nan'' then Some NaN
      else None)"

text \<open>
  A number is a sign if any, digits, a point and digits if any, with a digit somewhere,
  and an exponent if any; its value is rounded correctly. The only other texts accepted
  are the infinities and the not-a-number.
\<close>

definition float_literal :: "ustr \<Rightarrow> pyfloat option" where
  "float_literal s =
     (let sg = fst (split_sign s); r = snd (split_sign s);
          ip = takeWhile ascii_digit r; r1 = dropWhile ascii_digit r;
          pt = (r1 \<noteq> [] \<and> hd r1 = 46);
          fp = (if pt then takeWhile ascii_digit (tl r1) else []);
          r2 = (if pt then dropWhile ascii_digit (tl r1) else r1)
      in if ip = [] \<and> fp = [] then inf_or_nan sg r
         else (case exponent r2 of
                 None \<Rightarrow> None
               | Some x \<Rightarrow>
                   Some (binary64 sg
                     (digits_value (ip @ fp) * 10 ^ nat (x - int (length fp)))
                     (10 ^ nat (int (length fp) - x)))))"

definition strip_ascii :: "ustr \<Rightarrow> ustr" where
  "strip_ascii s = rev (dropWhile ascii_space (rev (dropWhile ascii_space s)))"

definition py_float :: "nat list \<Rightarrow> ustr \<Rightarrow> exn + pyfloat" where
  "py_float zs s =
     (case drop_underscores 0 (float_ascii zs s) of
        None \<Rightarrow> Inl ValueError
      | Some u \<Rightarrow>
          (case float_literal (strip_ascii u) of
             None \<Rightarrow> Inl ValueError
           | Some x \<Rightarrow> Inr x))"

section \<open>Bounded deques\<close>

text \<open>
  \<^verbatim>\<open>collections.deque(maxlen=N)\<close>, as the plotter uses it: \<^verbatim>\<open>append\<close> puts the item at
  the right end and, when the deque has grown past \<^verbatim>\<open>maxlen\<close>, drops the leftmost item.
  With \<^verbatim>\<open>maxlen = 0\<close> the appended item is itself the one dropped.
\<close>

definition MAX_POINTS :: nat where
  "MAX_POINTS = 200"

definition deque_append :: "nat \<Rightarrow> 'a list \<Rightarrow> 'a \<Rightarrow> 'a list" where
  "deque_append maxlen d x =
     (let d' = d @ [x] in if length d' > maxlen then tl d' else d')"

text \<open>A deque after a series of appends, starting from the empty deque of lines 27-29.\<close>

definition deque_of :: "nat \<Rightarrow> 'a list \<Rightarrow> 'a list" where
  "deque_of maxlen xs = foldl (deque_append maxlen) [] xs"

section \<open>The line schema\<close>

text \<open>
  The schema in words: the token \<^verbatim>\<open>Pred:\<close>, a numeral, the token \<^verbatim>\<open>,True:\<close>, a numeral. A
  numeral has a sign or none and is an integer (one or more decimal digits) or a fraction
  (decimal digits or none, a point, one or more decimal digits).
\<close>

definition run_length :: "(nat \<Rightarrow> bool) \<Rightarrow> ustr \<Rightarrow> nat" where
  "run_length P s = length (takeWhile P s)"

definition sign_length :: "ustr \<Rightarrow> nat" where
  "sign_length s = (case s of [] \<Rightarrow> 0 | c # _ \<Rightarrow> if c = 45 \<or> c = 43 then 1 else 0)"

definition integer_literal :: "nat list \<Rightarrow> ustr \<Rightarrow> bool" where
  "integer_literal zs w =
     (let b = drop (sign_length w) w in b \<noteq> [] \<and> list_all (is_decimal zs) b)"

definition fraction_literal :: "nat list \<Rightarrow> ustr \<Rightarrow> bool" where
  "fraction_literal zs w =
     (let b = drop (sign_length w) w; n = run_length (is_decimal zs) b
      in n < length b \<and> b ! n = 46 \<and> Suc n < length b
         \<and> list_all (is_decimal zs) (drop (Suc n) b))"

definition number_literal :: "nat list \<Rightarrow> ustr \<Rightarrow> bool" where
  "number_literal zs w = (fraction_literal zs w \<or> integer_literal zs w)"

text \<open>
  The number a numeral denotes is its digits read in base ten over ten to the number of
  places after the point, negated after a minus sign; \<open>literal_float\<close> is the binary64
  number nearest to it.
\<close>

definition literal_numerator :: "nat list \<Rightarrow> ustr \<Rightarrow> nat" where
  "literal_numerator zs w =
     foldl (\<lambda>v c. case decimal_value zs c of None \<Rightarrow> v | Some d \<Rightarrow> 10 * v + d) 0 w"

definition literal_places :: "ustr \<Rightarrow> nat" where
  "literal_places w = length (dropWhile (\<lambda>c. c \<noteq> 46) w) - 1"

definition literal_float :: "nat list \<Rightarrow> ustr \<Rightarrow> pyfloat" where
  "literal_float zs w =
     binary64 (w \<noteq> [] \<and> hd w = 45) (literal_numerator zs w) (10 ^ literal_places w)"

text \<open>
  The lengths of the numerals that \<open>number_rx\<close> can read at the head of a text, in the order
  in which backtracking offers them.
\<close>

definition fraction_lengths :: "nat list \<Rightarrow> ustr \<Rightarrow> nat list" where
  "fraction_lengths zs b =
     (let n = run_length (is_decimal zs) b
      in if n < length b \<and> b ! n = 46
         then map (\<lambda>j. n + 1 + j) (rev [Suc 0..<Suc (run_length (is_decimal zs) (drop (Suc n) b))])
         else [])"

definition number_lengths :: "nat list \<Rightarrow> ustr \<Rightarrow> nat list" where
  "number_lengths zs s =
     map (\<lambda>k. sign_length s + k)
       (fraction_lengths zs (drop (sign_length s) s)
        @ rev [Suc 0..<Suc (run_length (is_decimal zs) (drop (sign_length s) s))])"

text \<open>The ASCII digit that \<^verbatim>\<open>float\<close> reads a decimal digit as; other code points stay.\<close>

definition ascii_of :: "nat list \<Rightarrow> nat \<Rightarrow> nat" where
  "ascii_of zs c = (case decimal_value zs c of None \<Rightarrow> c | Some d \<Rightarrow> 48 + d)"

text \<open>
  A text that holds the schema: something, the first token, a numeral, the second token, a
  numeral, something.
\<close>

definition schema_at :: "nat list \<Rightarrow> ustr \<Rightarrow> ustr \<Rightarrow> ustr \<Rightarrow> ustr \<Rightarrow> ustr \<Rightarrow> bool" where
  "schema_at zs t pre n1 n2 post =
     (t = pre @ ascii ''Pred:'' @ n1 @ ascii '',True:'' @ n2 @ post
      \<and> number_literal zs n1 \<and> number_literal zs n2)"

section \<open>The reader thread\<close>

text \<open>
  The state that \<^verbatim>\<open>read_serial\<close> works on: the three deques and the flag \<^verbatim>\<open>running\<close> of the
  module, and the locals \<^verbatim>\<open>ser\<close> and \<^verbatim>\<open>counter\<close> of the function. \<open>ser\<close> is \<open>None\<close> as long as
  the name is not bound, and otherwise holds \<^verbatim>\<open>is_open\<close> of the port object.
\<close>

record pstate =
  data_pred :: "pyfloat list"
  data_true :: "pyfloat list"
  data_x :: "nat list"
  running :: bool
  ser :: "bool option"
  counter :: nat

definition initial :: pstate where
  "initial = \<lparr>data_pred = [], data_true = [], data_x = [], running = True, ser = None,
     counter = 0\<rparr>"

text \<open>
  What the thread meets from outside: the port opens or \<^verbatim>\<open>serial.Serial\<close> raises; each
  \<^verbatim>\<open>readline\<close> returns octets (none, or part of a line, when the timeout strikes) or
  raises; and the main thread clears \<^verbatim>\<open>running\<close> (line 134) between two turns of the loop.
\<close>

datatype open_result = Opened | OpenRaises exn

datatype reading = Line bytes | ReadRaises exn

datatype event = Shutdown | Readline reading

text \<open>Lines 51 to 59: a line is decoded, stripped and searched, and the groups converted.\<close>

definition decoded_line :: "bytes \<Rightarrow> ustr" where
  "decoded_line bs = py_strip (decode_utf8_ignore bs)"

definition parse_line :: "nat list \<Rightarrow> bytes \<Rightarrow> exn + (pyfloat \<times> pyfloat) option" where
  "parse_line zs bs =
     (case re_search zs PATTERN (decoded_line bs) of
        None \<Rightarrow> Inr None
      | Some m \<Rightarrow>
          (case py_float zs (group m 1) of
             Inl e \<Rightarrow> Inl e
           | Inr pred_val \<Rightarrow>
               (case py_float zs (group m 2) of
                  Inl e \<Rightarrow> Inl e
                | Inr true_val \<Rightarrow> Inr (Some (pred_val, true_val)))))"

text \<open>Lines 62 to 65, statement by statement.\<close>

definition append_pred :: "pyfloat \<Rightarrow> pstate \<Rightarrow> pstate" where
  "append_pred v s = s\<lparr>data_pred := deque_append MAX_POINTS (data_pred s) v\<rparr>"

definition append_true :: "pyfloat \<Rightarrow> pstate \<Rightarrow> pstate" where
  "append_true v s = s\<lparr>data_true := deque_append MAX_POINTS (data_true s) v\<rparr>"

definition append_x :: "pstate \<Rightarrow> pstate" where
  "append_x s = s\<lparr>data_x := deque_append MAX_POINTS (data_x s) (counter s)\<rparr>"

definition count_up :: "pstate \<Rightarrow> pstate" where
  "count_up s = s\<lparr>counter := counter s + 1\<rparr>"

definition store_sample :: "pyfloat \<times> pyfloat \<Rightarrow> pstate \<Rightarrow> pstate" where
  "store_sample v s = count_up (append_x (append_true (snd v) (append_pred (fst v) s)))"

text \<open>
  The three appends of lines 62 to 64 are three statements, and nothing in the program keeps
  the callback from running between two of them. These are the states that the callback
  can find during one turn that stores a sample: before line 62, after line 62, after line
  63, after line 64 and after line 65.
\<close>

definition turn_states :: "pyfloat \<times> pyfloat \<Rightarrow> pstate \<Rightarrow> pstate list" where
  "turn_states v s =
     [s,
      append_pred (fst v) s,
      append_true (snd v) (append_pred (fst v) s),
      append_x (append_true (snd v) (append_pred (fst v) s)),
      store_sample v s]"

text \<open>One turn of the loop body, lines 51 to 65.\<close>

definition iteration :: "nat list \<Rightarrow> bytes \<Rightarrow> pstate \<Rightarrow> exn + pstate" where
  "iteration zs bs s =
     (case parse_line zs bs of
        Inl e \<Rightarrow> Inl e
      | Inr None \<Rightarrow> Inr s
      | Inr (Some v) \<Rightarrow> Inr (store_sample v s))"

text \<open>
  The loop of line 50 over the events that arrive. It is left when \<^verbatim>\<open>running\<close> is found
  cleared or an exception is raised; when the events are used up with \<^verbatim>\<open>running\<close> still set,
  the thread is waiting in \<^verbatim>\<open>readline\<close>.
\<close>

datatype outcome = Waiting | Exited | Raised exn

fun while_running :: "nat list \<Rightarrow> event list \<Rightarrow> pstate \<Rightarrow> outcome \<times> pstate" where
  "while_running zs [] s = (if running s then (Waiting, s) else (Exited, s))"
| "while_running zs (Shutdown # es) s = while_running zs es (s\<lparr>running := False\<rparr>)"
| "while_running zs (Readline r # es) s =
     (if \<not> running s then (Exited, s)
      else (case r of
              ReadRaises e \<Rightarrow> (Raised e, s)
            | Line bs \<Rightarrow>
                (case iteration zs bs s of
                   Inl e \<Rightarrow> (Raised e, s)
                 | Inr s' \<Rightarrow> while_running zs es s')))"

text \<open>
  The \<^verbatim>\<open>finally\<close> block, lines 70 to 72. Reading the local \<^verbatim>\<open>ser\<close> while it is not bound
  raises; the test \<^verbatim>\<open>'ser' in locals()\<close> comes first and \<^verbatim>\<open>and\<close> stops at a false operand.
\<close>

definition load_ser :: "pstate \<Rightarrow> exn + bool" where
  "load_ser s = (case ser s of None \<Rightarrow> Inl UnboundLocalError | Some is_open \<Rightarrow> Inr is_open)"

definition finally_block :: "pstate \<Rightarrow> exn + pstate" where
  "finally_block s =
     (if ser s \<noteq> None then
        (case load_ser s of
           Inl e \<Rightarrow> Inl e
         | Inr is_open \<Rightarrow>
             Inr ((if is_open then s\<lparr>ser := Some False\<rparr> else s)\<lparr>running := False\<rparr>))
      else Inr (s\<lparr>running := False\<rparr>))"

text \<open>
  How the thread stands: still in the loop, returned from \<^verbatim>\<open>read_serial\<close>, or ended by an
  exception that \<^verbatim>\<open>read_serial\<close> let through. On entry no local is bound yet. The \<^verbatim>\<open>except\<close> clause of line 67 catches
  \<^verbatim>\<open>SerialException\<close> alone; the \<^verbatim>\<open>finally\<close> block runs on every way out of the \<^verbatim>\<open>try\<close>.
\<close>

datatype status = Alive | Returned | Died exn

definition leave :: "outcome \<Rightarrow> pstate \<Rightarrow> status \<times> pstate" where
  "leave out s =
     (case out of
        Waiting \<Rightarrow> (Alive, s)
      | Exited \<Rightarrow>
          (case finally_block s of Inl e \<Rightarrow> (Died e, s) | Inr s' \<Rightarrow> (Returned, s'))
      | Raised e \<Rightarrow>
          (case finally_block s of
             Inl e' \<Rightarrow> (Died e', s)
           | Inr s' \<Rightarrow> (if e = SerialException then (Returned, s') else (Died e, s'))))"

definition read_serial :: "nat list \<Rightarrow> open_result \<Rightarrow> event list \<Rightarrow> pstate \<Rightarrow> status \<times> pstate" where
  "read_serial zs opn es s =
     (case opn of
        OpenRaises e \<Rightarrow> leave (Raised e) (s\<lparr>ser := None\<rparr>)
      | Opened \<Rightarrow>
          leave (fst (while_running zs es (s\<lparr>ser := Some True, counter := 0\<rparr>)))
                (snd (while_running zs es (s\<lparr>ser := Some True, counter := 0\<rparr>))))"

subsection \<open>What a run has stored\<close>

text \<open>The state in which the loop of line 50 is entered: the port open, the counter at 0.\<close>

definition loop_entry :: pstate where
  "loop_entry = initial\<lparr>ser := Some True, counter := 0\<rparr>"

text \<open>A stream of lines, each read in its turn.\<close>

definition line_events :: "bytes list \<Rightarrow> event list" where
  "line_events bss = map (\<lambda>bs. Readline (Line bs)) bss"

text \<open>
  The samples parsed from the lines that the loop reads before it is left, in the order of
  the lines; \<open>run\<close> is the flag as it stands.
\<close>

fun samples_read :: "nat list \<Rightarrow> event list \<Rightarrow> bool \<Rightarrow> (pyfloat \<times> pyfloat) list" where
  "samples_read zs [] run = []"
| "samples_read zs (Shutdown # es) run = samples_read zs es False"
| "samples_read zs (Readline r # es) run =
     (if \<not> run then []
      else (case r of
              ReadRaises e \<Rightarrow> []
            | Line bs \<Rightarrow>
                (case parse_line zs bs of
                   Inl e \<Rightarrow> []
                 | Inr None \<Rightarrow> samples_read zs es run
                 | Inr (Some v) \<Rightarrow> v # samples_read zs es run)))"

text \<open>The samples that the lines of a stream hold.\<close>

definition samples_of :: "nat list \<Rightarrow> bytes list \<Rightarrow> (pyfloat \<times> pyfloat) list" where
  "samples_of zs bss =
     concat (map (\<lambda>bs. case parse_line zs bs of Inr (Some v) \<Rightarrow> [v] | _ \<Rightarrow> []) bss)"

text \<open>The samples retained of a history, each with its sequence index.\<close>

definition retained :: "(pyfloat \<times> pyfloat) list \<Rightarrow> ((pyfloat \<times> pyfloat) \<times> nat) list" where
  "retained vs = deque_of MAX_POINTS (zip vs [0..<length vs])"

text \<open>The deques hold the windows of one history of samples.\<close>

definition aligned :: "(pyfloat \<times> pyfloat) list \<Rightarrow> pstate \<Rightarrow> bool" where
  "aligned ws s =
     (data_pred s = deque_of MAX_POINTS (map fst ws)
      \<and> data_true s = deque_of MAX_POINTS (map snd ws)
      \<and> data_x s = deque_of MAX_POINTS [0..<length ws]
      \<and> counter s = length ws)"

section \<open>The animation callback\<close>

text \<open>
  What \<^verbatim>\<open>update\<close> hands to the plot. \<^verbatim>\<open>set_data\<close> receives the deque objects themselves, not
  copies of them, and a fresh \<^verbatim>\<open>range\<close>; an argument is therefore a reference to one of the
  deques of the module, or a range, or the empty list the lines are created with.
\<close>

datatype deque_id = DataPred | DataTrue

datatype arg = Live deque_id | Range nat | Empty

record plot =
  line_pred :: "arg \<times> arg"
  line_true :: "arg \<times> arg"
  xlim :: "(nat \<times> nat) option"
  error_text :: ustr

definition initial_plot :: plot where
  "initial_plot = \<lparr>line_pred = (Empty, Empty), line_true = (Empty, Empty), xlim = None,
     error_text = []\<rparr>"

text \<open>The numbers an argument stands for, read in the state of the deques at that moment.\<close>

fun deref :: "pstate \<Rightarrow> arg \<Rightarrow> pyfloat list" where
  "deref s (Live DataPred) = data_pred s"
| "deref s (Live DataTrue) = data_true s"
| "deref s (Range n) = map (\<lambda>i. binary64 False i 1) [0..<n]"
| "deref s Empty = []"

text \<open>\<^verbatim>\<open>d[-1]\<close> on a deque.\<close>

definition last_item :: "'a list \<Rightarrow> exn + 'a" where
  "last_item d = (if d = [] then Inl IndexError else Inr (last d))"

text \<open>
  Lines 108 to 120. The callback reads the deques and writes the plot; the state of the
  reader is returned as it was found.
\<close>

definition update :: "pstate \<Rightarrow> plot \<Rightarrow> exn + pstate \<times> plot" where
  "update s p =
     (if data_x s \<noteq> [] then
        (let p1 = p\<lparr>line_pred := (Range (length (data_x s)), Live DataPred)\<rparr>;
             p2 = p1\<lparr>line_true := (Range (length (data_x s)), Live DataTrue)\<rparr>;
             p3 = p2\<lparr>xlim := Some (0, length (data_x s))\<rparr>
         in case last_item (data_pred s) of
              Inl e \<Rightarrow> Inl e
            | Inr a \<Rightarrow>
                (case last_item (data_true s) of
                   Inl e \<Rightarrow> Inl e
                 | Inr b \<Rightarrow>
                     Inr (s, p3\<lparr>error_text :=
                            ascii ''Current Error: '' @ format_4f (fabs (fsub a b))\<rparr>)))
      else Inr (s, p))"

section \<open>Properties of the bounded deque\<close>

lemma deque_append_length:
  "length d \<le> n \<Longrightarrow> length (deque_append n d x) \<le> n"
  by (simp add: deque_append_def Let_def)

lemma deque_append_drop:
  "deque_append n (drop (length xs - n) xs) x = drop (length (xs @ [x]) - n) (xs @ [x])"
proof -
  consider "length xs < n" | "n = 0" | "0 < n" "n \<le> length xs" by linarith
  then show ?thesis
  proof cases
    case 1
    then show ?thesis by (simp add: deque_append_def Let_def)
  next
    case 2
    then show ?thesis by (simp add: deque_append_def Let_def)
  next
    case 3
    then have ne: "drop (length xs - n) xs \<noteq> []" by simp
    have len: "length (drop (length xs - n) xs) = n" using 3 by simp
    have "deque_append n (drop (length xs - n) xs) x = tl (drop (length xs - n) xs @ [x])"
      using len by (simp add: deque_append_def Let_def)
    also have "\<dots> = tl (drop (length xs - n) xs) @ [x]"
      using ne by simp
    also have "\<dots> = drop (Suc (length xs - n)) xs @ [x]"
      by (simp add: drop_Suc tl_drop)
    also have "\<dots> = drop (Suc (length xs - n)) (xs @ [x])"
      using 3 by simp
    also have "Suc (length xs - n) = length (xs @ [x]) - n"
      using 3 by simp
    finally show ?thesis .
  qed
qed

lemma foldl_deque_append:
  "foldl (deque_append n) [] xs = drop (length xs - n) xs"
proof (induction xs rule: rev_induct)
  case Nil
  then show ?case by simp
next
  case (snoc x xs)
  then show ?case using deque_append_drop [of n xs x] by simp
qed

text \<open>
  C1. A deque of capacity \<open>n\<close> never holds more than \<open>n\<close> items, whatever is appended; an
  append to a full deque drops the oldest item (the one with the smallest sequence index,
  the sequence indices being appended in ascending order); after any series of appends the
  deque holds exactly the last \<open>n\<close> appended items in the order of their appends, so after
  \<open>n + k\<close> appends of the indices \<open>0, 1, 2, ...\<close> it holds \<open>k, ..., n + k - 1\<close>; and with capacity
  3 the appends 0, 1, 2, 3 leave 1, 2, 3.
\<close>

theorem deque_sliding_window:
  fixes xs d :: "'a list"
  shows "length (deque_of n xs) \<le> n
   \<and> (length d = n \<longrightarrow> deque_append n d x = tl (d @ [x]))
   \<and> deque_of n xs = drop (length xs - n) xs
   \<and> deque_of n [0..<n + k] = [k..<n + k]
   \<and> deque_of 3 [0, 1, 2, 3 :: nat] = [1, 2, 3]
   \<and> length (deque_of MAX_POINTS xs) \<le> 200"
proof -
  have a: "deque_of n xs = drop (length xs - n) xs"
    by (simp add: deque_of_def foldl_deque_append)
  have b: "length (deque_of n xs) \<le> n"
    by (simp add: a)
  have c: "length d = n \<longrightarrow> deque_append n d x = tl (d @ [x])"
    by (simp add: deque_append_def Let_def)
  have d: "deque_of n [0..<n + k] = [k..<n + k]"
    by (simp add: deque_of_def foldl_deque_append)
  have e: "deque_of 3 [0, 1, 2, 3 :: nat] = [1, 2, 3]"
    by (simp add: deque_of_def deque_append_def)
  have f: "length (deque_of MAX_POINTS xs) \<le> 200"
    by (simp add: deque_of_def foldl_deque_append MAX_POINTS_def)
  show ?thesis using a b c d e f by blast
qed

theorem deque_sliding_window_witness:
  "length (deque_of 2 [10, 20, 30 :: nat]) \<le> 2
   \<and> (length [10, 20 :: nat] = 2 \<and> deque_append 2 [10, 20 :: nat] 30 = tl ([10, 20] @ [30]))
   \<and> deque_of 2 [10, 20, 30 :: nat] = drop (length [10, 20, 30 :: nat] - 2) [10, 20, 30]
   \<and> deque_of 2 [0..<2 + 1] = [1..<2 + 1]"
  using deque_sliding_window [of 2 "[10, 20, 30 :: nat]" "[10, 20 :: nat]" 30 1]
  by simp

section \<open>The pattern, matched by backtracking\<close>

lemma run_length_Nil [simp]: "run_length P [] = 0"
  by (simp add: run_length_def)

lemma run_length_Cons [simp]:
  "run_length P (c # s) = (if P c then Suc (run_length P s) else 0)"
  by (simp add: run_length_def)

lemma run_length_le: "run_length P s \<le> length s"
  by (simp add: run_length_def length_takeWhile_le)

lemma upt_0_Suc: "[0..<Suc m] = 0 # map Suc [0..<m]"
  by (simp add: upt_conv_Cons map_Suc_upt del: upt_Suc)

lemma map_rev_upt_Suc:
  "map f (rev [0..<Suc m]) = map (\<lambda>k. f (Suc k)) (rev [0..<m]) @ [f 0]"
  by (subst upt_0_Suc) (simp add: rev_map comp_def del: upt_Suc)

lemma map_rev_upt_1:
  "map f (rev [Suc 0..<Suc m]) = map (\<lambda>k. f (Suc k)) (rev [0..<m])"
proof -
  have "[Suc 0..<Suc m] = map Suc [0..<m]"
    by (simp add: map_Suc_upt del: upt_Suc)
  then show ?thesis by (simp add: rev_map comp_def del: upt_Suc)
qed

lemma star_iter_one_char:
  "length s \<le> n \<Longrightarrow>
   star_iter n (one_char P) (s, g) = map (\<lambda>k. (drop k s, g)) (rev [0..<Suc (run_length P s)])"
proof (induction n arbitrary: s)
  case 0
  then show ?case by simp
next
  case (Suc n)
  show ?case
  proof (cases s)
    case Nil
    then show ?thesis by (simp add: one_char_def)
  next
    case (Cons c s')
    show ?thesis
    proof (cases "P c")
      case True
      have len: "length s' \<le> n" using Suc.prems Cons by simp
      have "star_iter (Suc n) (one_char P) (s, g) = star_iter n (one_char P) (s', g) @ [(s, g)]"
        using Cons True by (simp add: one_char_def)
      also have "\<dots> = map (\<lambda>k. (drop k s', g)) (rev [0..<Suc (run_length P s')]) @ [(s, g)]"
        using Suc.IH [OF len] by simp
      also have "\<dots> = map (\<lambda>k. (drop k s, g)) (rev [0..<Suc (Suc (run_length P s'))])"
        using Cons by (simp add: map_rev_upt_Suc [of _ "Suc (run_length P s')"] del: upt_Suc)
      finally show ?thesis using Cons True by simp
    next
      case False
      then show ?thesis using Cons by (simp add: one_char_def)
    qed
  qed
qed

lemma star_one_char:
  "star (one_char P) (s, g) = map (\<lambda>k. (drop k s, g)) (rev [0..<Suc (run_length P s)])"
  by (simp add: star_def star_iter_one_char)

lemma plus_one_char:
  "concat (map (star (one_char P)) (one_char P (s, g)))
   = map (\<lambda>k. (drop k s, g)) (rev [1..<Suc (run_length P s)])"
proof (cases s)
  case Nil
  then show ?thesis by (simp add: one_char_def)
next
  case (Cons c s')
  show ?thesis
  proof (cases "P c")
    case True
    have "map (\<lambda>k. (drop k s, g)) (rev [1..<Suc (Suc (run_length P s'))])
          = map (\<lambda>k. (drop k s', g)) (rev [0..<Suc (run_length P s')])"
      using Cons by (simp add: map_rev_upt_1 [of _ "Suc (run_length P s')"] del: upt_Suc)
    then show ?thesis using Cons True by (simp add: one_char_def star_one_char del: upt_Suc)
  next
    case False
    then show ?thesis using Cons by (simp add: one_char_def)
  qed
qed

lemma bt_lit:
  "bt zs (lit w) (s, g) = (if take (length w) s = w then [(drop (length w) s, g)] else [])"
proof (induction w arbitrary: s)
  case Nil
  then show ?case by simp
next
  case (Cons c w)
  show ?case
  proof (cases s)
    case Nil
    then show ?thesis by (simp add: one_char_def)
  next
    case (Cons d s')
    then show ?thesis using Cons.IH [of s'] by (simp add: one_char_def)
  qed
qed

lemma not_decimal_ascii: "c < 48 \<Longrightarrow> \<not> is_decimal zs c"
  by (simp add: is_decimal_def decimal_value_def)

lemma run_length_nth: "k < run_length P s \<Longrightarrow> P (s ! k)"
  unfolding run_length_def by (metis nth_mem set_takeWhileD takeWhile_nth)

lemma run_length_stop: "run_length P s < length s \<Longrightarrow> \<not> P (s ! run_length P s)"
  unfolding run_length_def by (rule nth_length_takeWhile)

lemma bt_Chr:
  "bt zs (Chr c) (s, g) = (case s of [] \<Rightarrow> [] | x # s' \<Rightarrow> if x = c then [(s', g)] else [])"
  by (simp add: one_char_def split: list.splits)

lemma bt_Cat: "bt zs (Cat r1 r2) st = concat (map (bt zs r2) (bt zs r1 st))"
  by simp

lemma bt_Star_Dec:
  "bt zs (Star Dec) (s, g) = map (\<lambda>k. (drop k s, g)) (rev [0..<Suc (run_length (is_decimal zs) s)])"
  by (simp add: star_one_char del: upt_Suc)

lemma bt_Plus_Dec:
  "bt zs (Plus Dec) (s, g)
   = map (\<lambda>k. (drop k s, g)) (rev [Suc 0..<Suc (run_length (is_decimal zs) s)])"
  using plus_one_char [of "is_decimal zs" s g] by simp

lemma point_after_digits:
  "bt zs (Cat (Chr 46) (Plus Dec)) (r, g) =
     (case r of
        [] \<Rightarrow> []
      | c # r' \<Rightarrow>
          if c = 46
          then map (\<lambda>j. (drop j r', g)) (rev [Suc 0..<Suc (run_length (is_decimal zs) r')])
          else [])"
  by (cases r) (simp_all add: bt_Cat bt_Chr bt_Plus_Dec del: upt_Suc bt.simps)

lemma point_after_digits_none:
  "k < run_length (is_decimal zs) b \<Longrightarrow> bt zs (Cat (Chr 46) (Plus Dec)) (drop k b, g) = []"
proof -
  assume k: "k < run_length (is_decimal zs) b"
  then have kl: "k < length b" using run_length_le [of "is_decimal zs" b] by simp
  have d: "is_decimal zs (b ! k)" using k by (rule run_length_nth)
  have "b ! k \<noteq> 46" using d not_decimal_ascii [of 46 zs] by auto
  moreover have "drop k b = b ! k # drop (Suc k) b" using kl by (simp add: Cons_nth_drop_Suc)
  ultimately show ?thesis by (simp add: point_after_digits del: bt.simps)
qed

lemma concat_map_rev_upt_none:
  "(\<And>k. k < n \<Longrightarrow> f k = []) \<Longrightarrow> concat (map f (rev [0..<n])) = []"
  by (induction n) simp_all

lemma bt_fraction:
  "bt zs (Cat (Star Dec) (Cat (Chr 46) (Plus Dec))) (b, g)
   = map (\<lambda>k. (drop k b, g)) (fraction_lengths zs b)"
proof -
  let ?n = "run_length (is_decimal zs) b"
  let ?h = "\<lambda>k. bt zs (Cat (Chr 46) (Plus Dec)) (drop k b, g)"
  have "bt zs (Cat (Star Dec) (Cat (Chr 46) (Plus Dec))) (b, g)
        = concat (map ?h (rev [0..<Suc ?n]))"
    by (simp add: bt_Cat [of zs "Star Dec"] bt_Star_Dec comp_def del: upt_Suc bt.simps)
  also have "\<dots> = ?h ?n @ concat (map ?h (rev [0..<?n]))"
    by simp
  also have "concat (map ?h (rev [0..<?n])) = []"
    by (rule concat_map_rev_upt_none) (rule point_after_digits_none)
  finally have eq: "bt zs (Cat (Star Dec) (Cat (Chr 46) (Plus Dec))) (b, g) = ?h ?n"
    by simp
  show ?thesis
  proof (cases "?n < length b")
    case True
    then have "drop ?n b = b ! ?n # drop (Suc ?n) b" by (simp add: Cons_nth_drop_Suc)
    then show ?thesis using True eq
      by (simp add: point_after_digits fraction_lengths_def Let_def comp_def add.commute
            del: upt_Suc bt.simps)
  next
    case False
    then have "drop ?n b = []" by simp
    then show ?thesis using False eq
      by (simp add: point_after_digits fraction_lengths_def Let_def del: upt_Suc bt.simps)
  qed
qed

lemma bt_sign:
  "bt zs sign_rx (s, g) = (if sign_length s = 1 then [(tl s, g), (s, g)] else [(s, g)])"
  by (cases s) (auto simp add: sign_rx_def ascii_def one_char_def sign_length_def)

lemma sign_length_cases:
  obtains "sign_length s = 0" | c s' where "s = c # s'" "c = 45 \<or> c = 43" "sign_length s = 1"
proof (cases s)
  case Nil
  then have "sign_length s = 0" by (simp add: sign_length_def)
  then show ?thesis by (rule that(1))
next
  case (Cons c s')
  show ?thesis
  proof (cases "c = 45 \<or> c = 43")
    case True
    then have "sign_length s = 1" using Cons by (auto simp add: sign_length_def)
    with Cons True show ?thesis by (rule that(2))
  next
    case False
    then have "sign_length s = 0" using Cons by (simp add: sign_length_def)
    then show ?thesis by (rule that(1))
  qed
qed

lemma bt_Cat_sign:
  "bt zs (Cat sign_rx r) (s, g)
   = (if sign_length s = 1 then bt zs r (tl s, g) @ bt zs r (s, g) else bt zs r (s, g))"
  by (simp only: bt.simps(8) bt_sign) simp

lemma fraction_lengths_sign:
  "c = 45 \<or> c = 43 \<Longrightarrow> fraction_lengths zs (c # s') = []"
  using not_decimal_ascii [of c zs] by (auto simp add: fraction_lengths_def)

lemma run_length_sign:
  "c = 45 \<or> c = 43 \<Longrightarrow> run_length (is_decimal zs) (c # s') = 0"
  using not_decimal_ascii [of c zs] by auto

lemma bt_number_unfold:
  "bt zs number_rx (s, g)
   = (if sign_length s = 1
      then map (\<lambda>k. (drop k (tl s), g)) (fraction_lengths zs (tl s))
           @ map (\<lambda>k. (drop k s, g)) (fraction_lengths zs s)
      else map (\<lambda>k. (drop k s, g)) (fraction_lengths zs s))
     @ (if sign_length s = 1
        then map (\<lambda>k. (drop k (tl s), g)) (rev [Suc 0..<Suc (run_length (is_decimal zs) (tl s))])
             @ map (\<lambda>k. (drop k s, g)) (rev [Suc 0..<Suc (run_length (is_decimal zs) s)])
        else map (\<lambda>k. (drop k s, g)) (rev [Suc 0..<Suc (run_length (is_decimal zs) s)]))"
proof -
  have n: "number_rx
           = Alt (Cat sign_rx (Cat (Star Dec) (Cat (Chr 46) (Plus Dec)))) (Cat sign_rx (Plus Dec))"
    by (simp add: number_rx_def)
  show ?thesis
    by (simp only: n bt.simps(9) bt_Cat_sign bt_fraction bt_Plus_Dec)
qed

lemma bt_number:
  "bt zs number_rx (s, g) = map (\<lambda>k. (drop k s, g)) (number_lengths zs s)"
proof (cases s rule: sign_length_cases)
  case 1
  then show ?thesis
    by (simp add: bt_number_unfold number_lengths_def del: upt_Suc)
next
  case (2 c s')
  have "\<not> is_decimal zs c"
    using 2 not_decimal_ascii [of c zs] by auto
  then show ?thesis
    using 2
    by (simp add: bt_number_unfold number_lengths_def fraction_lengths_sign comp_def
          del: upt_Suc)
qed

lemma bt_group_number:
  "bt zs (Grp n number_rx) (s, g)
   = map (\<lambda>k. (drop k s, (n, take (length s - length (drop k s)) s) # g)) (number_lengths zs s)"
  by (simp add: bt_number capture_def comp_def del: bt.simps(9))

lemma run_length_take: "run_length P (take j b) = min j (run_length P b)"
proof (induction b arbitrary: j)
  case Nil
  then show ?case by simp
next
  case (Cons c b)
  then show ?case by (cases j) simp_all
qed

lemma list_all_take_iff:
  "j \<le> length b \<Longrightarrow> list_all P (take j b) \<longleftrightarrow> j \<le> run_length P b"
proof (induction b arbitrary: j)
  case Nil
  then show ?case by simp
next
  case (Cons c b)
  then show ?case by (cases j) simp_all
qed

lemma set_rev_upt_1: "set (rev [Suc 0..<Suc m]) = {j. 1 \<le> j \<and> j \<le> m}"
  by auto

lemma integer_body_iff:
  "j \<le> length b \<Longrightarrow>
   (take j b \<noteq> [] \<and> list_all (is_decimal zs) (take j b))
   \<longleftrightarrow> j \<in> set (rev [Suc 0..<Suc (run_length (is_decimal zs) b)])"
  using list_all_take_iff [of j b "is_decimal zs"] by (cases b) auto

lemma fraction_body_iff:
  assumes j: "j \<le> length b"
  shows "(run_length (is_decimal zs) (take j b) < length (take j b)
          \<and> take j b ! run_length (is_decimal zs) (take j b) = 46
          \<and> Suc (run_length (is_decimal zs) (take j b)) < length (take j b)
          \<and> list_all (is_decimal zs) (drop (Suc (run_length (is_decimal zs) (take j b))) (take j b)))
         \<longleftrightarrow> j \<in> set (fraction_lengths zs b)"
proof -
  let ?D = "is_decimal zs"
  let ?n = "run_length ?D b"
  let ?f = "run_length ?D (drop (Suc ?n) b)"
  have rl: "run_length ?D (take j b) = min j ?n" by (rule run_length_take)
  have len: "length (take j b) = j" using j by simp
  show ?thesis
  proof (cases "?n < j")
    case True
    then have m: "run_length ?D (take j b) = ?n" using rl by simp
    have nl: "?n < length b" using True j by simp
    have nth: "take j b ! ?n = b ! ?n" using True by simp
    have dr: "drop (Suc ?n) (take j b) = take (j - Suc ?n) (drop (Suc ?n) b)"
      by (simp add: drop_take)
    have jl: "j - Suc ?n \<le> length (drop (Suc ?n) b)" using j by simp
    have la: "list_all ?D (drop (Suc ?n) (take j b)) \<longleftrightarrow> j - Suc ?n \<le> ?f"
      unfolding dr using jl by (rule list_all_take_iff)
    have "j \<in> set (fraction_lengths zs b)
          \<longleftrightarrow> b ! ?n = 46 \<and> (\<exists>i. 1 \<le> i \<and> i \<le> ?f \<and> j = ?n + 1 + i)"
      using nl by (auto simp add: fraction_lengths_def Let_def simp del: upt_Suc)
    also have "\<dots> \<longleftrightarrow> b ! ?n = 46 \<and> Suc ?n < j \<and> j - Suc ?n \<le> ?f"
    proof -
      have "(\<exists>i. 1 \<le> i \<and> i \<le> ?f \<and> j = ?n + 1 + i) \<longleftrightarrow> Suc ?n < j \<and> j - Suc ?n \<le> ?f"
      proof
        assume "\<exists>i. 1 \<le> i \<and> i \<le> ?f \<and> j = ?n + 1 + i"
        then show "Suc ?n < j \<and> j - Suc ?n \<le> ?f" by auto
      next
        assume a: "Suc ?n < j \<and> j - Suc ?n \<le> ?f"
        then have "1 \<le> j - Suc ?n \<and> j - Suc ?n \<le> ?f \<and> j = ?n + 1 + (j - Suc ?n)" by arith
        then show "\<exists>i. 1 \<le> i \<and> i \<le> ?f \<and> j = ?n + 1 + i" by blast
      qed
      then show ?thesis by simp
    qed
    finally show ?thesis using m len nth la True by auto
  next
    case False
    then have m: "run_length ?D (take j b) = j" using rl by simp
    have "j \<notin> set (fraction_lengths zs b)"
      using False by (auto simp add: fraction_lengths_def Let_def simp del: upt_Suc)
    then show ?thesis using m len by simp
  qed
qed

lemma sign_length_take: "0 < k \<Longrightarrow> sign_length (take k s) = sign_length s"
  by (cases s; cases k) (simp_all add: sign_length_def)

lemma sign_length_le: "sign_length s \<le> length s"
  by (cases s) (simp_all add: sign_length_def)

lemma sign_length_le_1: "sign_length s \<le> 1"
  by (cases s) (simp_all add: sign_length_def)

lemma not_literal_Nil: "\<not> number_literal zs []"
  by (simp add: number_literal_def integer_literal_def fraction_literal_def sign_length_def)

lemma number_lengths_pos: "k \<in> set (number_lengths zs s) \<Longrightarrow> 0 < k"
  by (auto simp add: number_lengths_def fraction_lengths_def Let_def simp del: upt_Suc
           split: if_splits)

lemma number_lengths_iff:
  "k \<in> set (number_lengths zs s) \<longleftrightarrow> k \<le> length s \<and> number_literal zs (take k s)"
proof (cases "k = 0")
  case True
  then show ?thesis using number_lengths_pos [of k zs s] not_literal_Nil by auto
next
  case False
  let ?g = "sign_length s"
  let ?b = "drop ?g s"
  let ?L = "fraction_lengths zs ?b @ rev [Suc 0..<Suc (run_length (is_decimal zs) ?b)]"
  have mem: "k \<in> set (number_lengths zs s) \<longleftrightarrow> ?g \<le> k \<and> k - ?g \<in> set ?L"
    unfolding number_lengths_def set_map
  proof
    assume "k \<in> (+) ?g ` set ?L"
    then obtain x where "x \<in> set ?L" "k = ?g + x" by blast
    then show "?g \<le> k \<and> k - ?g \<in> set ?L" by simp
  next
    assume a: "?g \<le> k \<and> k - ?g \<in> set ?L"
    then have "k = ?g + (k - ?g)" by simp
    with a show "k \<in> (+) ?g ` set ?L" by blast
  qed
  have Lle: "x \<in> set ?L \<Longrightarrow> x \<le> length ?b" for x
  proof -
    assume x: "x \<in> set ?L"
    let ?n = "run_length (is_decimal zs) ?b"
    have n: "?n \<le> length ?b" by (rule run_length_le)
    have f: "run_length (is_decimal zs) (drop (Suc ?n) ?b) \<le> length ?b - Suc ?n"
      using run_length_le [of "is_decimal zs" "drop (Suc ?n) ?b"] by simp
    from x consider "x \<in> set (fraction_lengths zs ?b)"
      | "x \<in> set (rev [Suc 0..<Suc ?n])" by auto
    then show "x \<le> length ?b"
    proof cases
      case 1
      then show ?thesis using f
        by (auto simp add: fraction_lengths_def Let_def simp del: upt_Suc length_drop split: if_splits)
    next
      case 2
      then show ?thesis using n by auto
    qed
  qed
  show ?thesis
  proof (cases "k \<le> length s")
    case True
    have g1: "?g \<le> k" using False sign_length_le_1 [of s] by simp
    have sg: "sign_length (take k s) = ?g" using False by (simp add: sign_length_take)
    have bd: "drop ?g (take k s) = take (k - ?g) ?b" by (simp add: drop_take)
    have jl: "k - ?g \<le> length ?b" using True by simp
    have "number_literal zs (take k s) \<longleftrightarrow> k - ?g \<in> set ?L"
      unfolding number_literal_def integer_literal_def fraction_literal_def Let_def sg bd
      using fraction_body_iff [OF jl, of zs] integer_body_iff [OF jl, of zs]
      by (simp del: upt_Suc set_rev set_upt)
    then show ?thesis using mem g1 True by simp
  next
    case False
    have "k \<notin> set (number_lengths zs s)"
    proof
      assume "k \<in> set (number_lengths zs s)"
      then have "?g \<le> k" "k - ?g \<in> set ?L" using mem by auto
      then have "k - ?g \<le> length ?b" using Lle by blast
      then show False using False \<open>?g \<le> k\<close> sign_length_le [of s] by simp
    qed
    then show ?thesis using False by simp
  qed
qed

lemma take_length_drop: "take (length s - length (drop k s)) s = take k s"
proof (cases "k \<le> length s")
  case True
  then show ?thesis by simp
next
  case False
  then show ?thesis by simp
qed

lemma bt_group_number_take:
  "bt zs (Grp n number_rx) (s, g)
   = map (\<lambda>k. (drop k s, (n, take k s) # g)) (number_lengths zs s)"
  by (simp only: bt_group_number take_length_drop)

lemma bt_two_numbers:
  "bt zs (Cat (lit p) (Cat (Grp n number_rx) (Cat (lit q) (Grp m number_rx)))) (s, g) =
     (if take (length p) s = p then
        concat (map (\<lambda>k1.
          if take (length q) (drop k1 (drop (length p) s)) = q then
            map (\<lambda>k2. (drop k2 (drop (length q) (drop k1 (drop (length p) s))),
                        (m, take k2 (drop (length q) (drop k1 (drop (length p) s))))
                        # (n, take k1 (drop (length p) s)) # g))
              (number_lengths zs (drop (length q) (drop k1 (drop (length p) s))))
          else [])
          (number_lengths zs (drop (length p) s)))
      else [])"
proof -
  have tail: "bt zs (Cat (lit q) (Grp m number_rx)) (r, h)
              = (if take (length q) r = q
                 then map (\<lambda>k. (drop k (drop (length q) r), (m, take k (drop (length q) r)) # h))
                        (number_lengths zs (drop (length q) r))
                 else [])" for r h
    by (simp add: bt_Cat [of zs "lit q"] bt_lit bt_group_number_take del: bt.simps)
  have mid: "bt zs (Cat (Grp n number_rx) (Cat (lit q) (Grp m number_rx))) (r, h)
             = concat (map (\<lambda>k1.
                 if take (length q) (drop k1 r) = q
                 then map (\<lambda>k. (drop k (drop (length q) (drop k1 r)),
                                 (m, take k (drop (length q) (drop k1 r))) # (n, take k1 r) # h))
                        (number_lengths zs (drop (length q) (drop k1 r)))
                 else [])
                 (number_lengths zs r))" for r h
    by (simp add: bt_Cat [of zs "Grp n number_rx"] bt_group_number_take comp_def tail
          del: bt.simps)
  show ?thesis
    by (simp add: bt_Cat [of zs "lit p"] bt_lit mid del: bt.simps)
qed

lemma bt_PATTERN:
  "bt zs PATTERN (s, g) =
     (if take 5 s = ascii ''Pred:'' then
        concat (map (\<lambda>k1.
          if take 6 (drop (5 + k1) s) = ascii '',True:'' then
            map (\<lambda>k2. (drop (11 + k1 + k2) s,
                        (2, take k2 (drop (11 + k1) s)) # (1, take k1 (drop 5 s)) # g))
              (number_lengths zs (drop (11 + k1) s))
          else [])
          (number_lengths zs (drop 5 s)))
      else [])"
proof -
  have l5: "length (ascii ''Pred:'') = 5" and l6: "length (ascii '',True:'') = 6"
    by (simp_all add: ascii_def)
  have a: "drop 6 (drop (5 + k1) s) = drop (11 + k1) s" for k1
    by (simp add: add.commute)
  have b: "drop k1 (drop 5 s) = drop (5 + k1) s" for k1
    by (simp add: add.commute)
  have c: "drop k2 (drop (11 + k1) s) = drop (11 + k1 + k2) s" for k1 k2
    by (simp add: add.commute)
  show ?thesis
    unfolding PATTERN_def bt_two_numbers l5 l6 b a c ..
qed

lemma take_run_length: "take (run_length P s) s = takeWhile P s"
  unfolding run_length_def by (rule takeWhile_eq_take [symmetric])

lemma sign_split:
  "\<exists>sg. s = sg @ drop (sign_length s) s \<and> length sg = sign_length s
        \<and> (sg = [] \<or> sg = [45] \<or> sg = [43])"
proof (cases s rule: sign_length_cases)
  case 1
  then show ?thesis by simp
next
  case (2 c s')
  then show ?thesis by auto
qed

lemma integer_literal_split:
  assumes "integer_literal zs w"
  shows "\<exists>sg ds. w = sg @ ds \<and> (sg = [] \<or> sg = [45] \<or> sg = [43]) \<and> ds \<noteq> []
           \<and> list_all (is_decimal zs) ds"
  using assms sign_split [of w] unfolding integer_literal_def Let_def by blast

lemma fraction_literal_split:
  assumes "fraction_literal zs w"
  shows "\<exists>sg ip fp. w = sg @ ip @ 46 # fp \<and> (sg = [] \<or> sg = [45] \<or> sg = [43])
           \<and> list_all (is_decimal zs) ip \<and> fp \<noteq> [] \<and> list_all (is_decimal zs) fp"
proof -
  let ?b = "drop (sign_length w) w"
  let ?n = "run_length (is_decimal zs) ?b"
  from assms have all: "?n < length ?b \<and> ?b ! ?n = 46 \<and> Suc ?n < length ?b
      \<and> list_all (is_decimal zs) (drop (Suc ?n) ?b)"
    unfolding fraction_literal_def Let_def .
  from all have n: "?n < length ?b" by (rule conjunct1)
  from all have pt: "?b ! ?n = 46" by blast
  from all have ne: "Suc ?n < length ?b" by blast
  from all have fr: "list_all (is_decimal zs) (drop (Suc ?n) ?b)" by blast
  have b0: "?b = take ?n ?b @ ?b ! ?n # drop (Suc ?n) ?b"
    by (rule id_take_nth_drop [OF n])
  have b: "?b = takeWhile (is_decimal zs) ?b @ 46 # drop (Suc ?n) ?b"
    using b0 unfolding take_run_length pt .
  have ip: "list_all (is_decimal zs) (takeWhile (is_decimal zs) ?b)"
    by (auto simp add: list_all_iff dest: set_takeWhileD)
  have fp: "drop (Suc ?n) ?b \<noteq> []" using ne by simp
  obtain sg where sg: "w = sg @ ?b" "sg = [] \<or> sg = [45] \<or> sg = [43]"
    using sign_split [of w] by blast
  from b have "sg @ ?b = sg @ takeWhile (is_decimal zs) ?b @ 46 # drop (Suc ?n) ?b"
    by (rule arg_cong [where f = "(@) sg"])
  with sg(1) have "w = sg @ takeWhile (is_decimal zs) ?b @ 46 # drop (Suc ?n) ?b"
    by (rule trans)
  then show ?thesis using sg(2) ip fp fr by blast
qed

lemma literal_chars:
  assumes "number_literal zs w" and "c \<in> set w"
  shows "c = 45 \<or> c = 43 \<or> c = 46 \<or> is_decimal zs c"
proof -
  from assms(1) consider "fraction_literal zs w" | "integer_literal zs w"
    unfolding number_literal_def by blast
  then show ?thesis
  proof cases
    case 1
    then obtain sg ip fp where "w = sg @ ip @ 46 # fp" "sg = [] \<or> sg = [45] \<or> sg = [43]"
      "list_all (is_decimal zs) ip" "list_all (is_decimal zs) fp"
      using fraction_literal_split by blast
    then show ?thesis using assms(2) by (auto simp add: list_all_iff)
  next
    case 2
    then obtain sg ds where "w = sg @ ds" "sg = [] \<or> sg = [45] \<or> sg = [43]"
      "list_all (is_decimal zs) ds"
      using integer_literal_split by blast
    then show ?thesis using assms(2) by (auto simp add: list_all_iff)
  qed
qed

lemma literal_no_comma: "number_literal zs w \<Longrightarrow> 44 \<notin> set w"
  using literal_chars [of zs w 44] not_decimal_ascii [of 44 zs] by auto

lemma number_lengths_comma_unique:
  assumes k: "k \<in> set (number_lengths zs t)" and k': "k' \<in> set (number_lengths zs t)"
    and c: "k < length t" "t ! k = 44" and c': "k' < length t" "t ! k' = 44"
  shows "k = k'"
proof -
  have no: "a \<in> set (number_lengths zs t) \<Longrightarrow> b < a \<Longrightarrow> b < length t \<Longrightarrow> t ! b \<noteq> 44"
    for a b
  proof -
    assume a: "a \<in> set (number_lengths zs t)" and b: "b < a" "b < length t"
    have num: "number_literal zs (take a t)" using a by (simp add: number_lengths_iff)
    have "take a t ! b = t ! b" using b by simp
    moreover have "b < length (take a t)" using b by simp
    ultimately have "t ! b \<in> set (take a t)" by (metis nth_mem)
    then show "t ! b \<noteq> 44" using literal_no_comma [OF num] by auto
  qed
  show ?thesis
  proof (rule ccontr)
    assume "k \<noteq> k'"
    then consider "k < k'" | "k' < k" by linarith
    then show False
    proof cases
      case 1
      then show ?thesis using no [OF k' 1 c(1)] c(2) by simp
    next
      case 2
      then show ?thesis using no [OF k 2 c'(1)] c'(2) by simp
    qed
  qed
qed

lemma number_lengths_decreasing: "sorted_wrt (>) (number_lengths zs s)"
proof -
  let ?b = "drop (sign_length s) s"
  let ?n = "run_length (is_decimal zs) ?b"
  have r: "sorted_wrt (>) (rev [Suc 0..<Suc m])" for m :: nat
    by (simp add: sorted_wrt_rev del: upt_Suc)
  have f: "sorted_wrt (>) (fraction_lengths zs ?b)"
    using r by (simp add: fraction_lengths_def Let_def sorted_wrt_map del: upt_Suc rev_rev_ident)
  have fi: "x \<in> set (fraction_lengths zs ?b) \<Longrightarrow> ?n < x" for x
    by (auto simp add: fraction_lengths_def Let_def simp del: upt_Suc split: if_splits)
  have "sorted_wrt (>) (fraction_lengths zs ?b @ rev [Suc 0..<Suc ?n])"
    unfolding sorted_wrt_append using f r fi by (fastforce simp del: upt_Suc)
  then have "sorted_wrt (>) (map ((+) (sign_length s))
      (fraction_lengths zs ?b @ rev [Suc 0..<Suc ?n]))"
    by (simp only: sorted_wrt_map add_less_cancel_left)
  then show ?thesis
    by (simp only: number_lengths_def)
qed

lemma number_lengths_hd_max:
  "k \<in> set (number_lengths zs s) \<Longrightarrow> k \<le> hd (number_lengths zs s)"
  using number_lengths_decreasing [of zs s]
  by (cases "number_lengths zs s") auto

lemma concat_map_head:
  "concat (map F L) = st # rest \<Longrightarrow> \<exists>k \<in> set L. \<exists>rest'. F k = st # rest'"
proof (induction L)
  case Nil
  then show ?case by simp
next
  case (Cons k L)
  show ?case
  proof (cases "F k")
    case Nil
    then show ?thesis using Cons by simp
  next
    case (Cons a as)
    then show ?thesis using Cons.prems by simp
  qed
qed

lemma search_from_None:
  "search_from zs r i s = None \<longleftrightarrow> (\<forall>k \<le> length s. bt zs r (drop k s, []) = [])"
proof (induction s arbitrary: i)
  case Nil
  then show ?case by (simp split: list.splits)
next
  case (Cons c s)
  have "(\<forall>k \<le> length (c # s). bt zs r (drop k (c # s), []) = [])
        \<longleftrightarrow> bt zs r (c # s, []) = [] \<and> (\<forall>k \<le> length s. bt zs r (drop k s, []) = [])"
  proof
    assume a: "\<forall>k \<le> length (c # s). bt zs r (drop k (c # s), []) = []"
    have "bt zs r (drop 0 (c # s), []) = []" using a by blast
    moreover have "bt zs r (drop k s, []) = []" if "k \<le> length s" for k
    proof -
      have "bt zs r (drop (Suc k) (c # s), []) = []" using a that by (metis Suc_le_mono length_Cons)
      then show ?thesis by simp
    qed
    ultimately show "bt zs r (c # s, []) = [] \<and> (\<forall>k \<le> length s. bt zs r (drop k s, []) = [])"
      by simp
  next
    assume a: "bt zs r (c # s, []) = [] \<and> (\<forall>k \<le> length s. bt zs r (drop k s, []) = [])"
    show "\<forall>k \<le> length (c # s). bt zs r (drop k (c # s), []) = []"
    proof (intro allI impI)
      fix k assume "k \<le> length (c # s)"
      then show "bt zs r (drop k (c # s), []) = []" using a by (cases k) simp_all
    qed
  qed
  then show ?case using Cons.IH [of "Suc i"] by (simp split: list.splits)
qed

lemma search_from_Some:
  "search_from zs r i s = Some (j, g) \<Longrightarrow>
   \<exists>k st rest. j = i + k \<and> k \<le> length s \<and> bt zs r (drop k s, []) = st # rest \<and> g = snd st
     \<and> (\<forall>k' < k. bt zs r (drop k' s, []) = [])"
proof (induction s arbitrary: i)
  case Nil
  then obtain st rest where "bt zs r ([], []) = st # rest" "j = i" "g = snd st"
    by (auto split: list.splits)
  then show ?case by auto
next
  case (Cons c s)
  show ?case
  proof (cases "bt zs r (c # s, [])")
    case Nil
    then have "search_from zs r (Suc i) s = Some (j, g)" using Cons.prems by simp
    from Cons.IH [OF this] obtain k st rest where k: "j = Suc i + k" "k \<le> length s"
      "bt zs r (drop k s, []) = st # rest" "g = snd st" "\<forall>k' < k. bt zs r (drop k' s, []) = []"
      by blast
    have "\<forall>k' < Suc k. bt zs r (drop k' (c # s), []) = []"
    proof (intro allI impI)
      fix k' assume "k' < Suc k"
      then show "bt zs r (drop k' (c # s), []) = []" using Nil k(5) by (cases k') simp_all
    qed
    moreover have "j = i + Suc k" "Suc k \<le> length (c # s)"
      "bt zs r (drop (Suc k) (c # s), []) = st # rest" using k by simp_all
    ultimately show ?thesis using k(4) by blast
  next
    case (Cons st rest)
    then have "j = i" "g = snd st" using Cons.prems by simp_all
    then have "j = i + 0 \<and> 0 \<le> length (c # s) \<and> bt zs r (drop 0 (c # s), []) = st # rest
        \<and> g = snd st \<and> (\<forall>k' < 0. bt zs r (drop k' (c # s), []) = [])"
      using Cons by simp
    then show ?thesis by blast
  qed
qed

lemma pattern_match_sound:
  assumes "bt zs PATTERN (s, []) = st # rest"
  shows "\<exists>n1 n2. s = ascii ''Pred:'' @ n1 @ ascii '',True:'' @ n2 @ fst st
           \<and> number_literal zs n1 \<and> number_literal zs n2 \<and> snd st = [(2, n2), (1, n1)]
           \<and> length n2 = hd (number_lengths zs (n2 @ fst st))"
proof -
  let ?F = "\<lambda>k1. if take 6 (drop (5 + k1) s) = ascii '',True:'' then
            map (\<lambda>k2. (drop (11 + k1 + k2) s,
                        [(2::nat, take k2 (drop (11 + k1) s)), (1, take k1 (drop 5 s))]))
              (number_lengths zs (drop (11 + k1) s))
          else []"
  have p: "take 5 s = ascii ''Pred:''"
    using assms by (simp add: bt_PATTERN del: bt.simps split: if_splits)
  have "concat (map ?F (number_lengths zs (drop 5 s))) = st # rest"
    using assms p by (simp add: bt_PATTERN del: bt.simps)
  then obtain k1 rest' where k1: "k1 \<in> set (number_lengths zs (drop 5 s))"
    and F: "?F k1 = st # rest'"
    using concat_map_head [of ?F "number_lengths zs (drop 5 s)" st rest] by blast
  have t: "take 6 (drop (5 + k1) s) = ascii '',True:''"
    using F by (simp split: if_splits)
  let ?r = "drop (11 + k1) s"
  have m: "map (\<lambda>k2. (drop (11 + k1 + k2) s, [(2, take k2 ?r), (1, take k1 (drop 5 s))]))
             (number_lengths zs ?r) = st # rest'"
    using F t by simp
  then obtain k2 L where L: "number_lengths zs ?r = k2 # L"
    and st: "st = (drop (11 + k1 + k2) s, [(2, take k2 ?r), (1, take k1 (drop 5 s))])"
    by (cases "number_lengths zs ?r") auto
  have k2: "k2 \<in> set (number_lengths zs ?r)" using L by simp
  have n1: "number_literal zs (take k1 (drop 5 s))" using k1 by (simp add: number_lengths_iff)
  have n2: "number_literal zs (take k2 ?r)" and k2l: "k2 \<le> length ?r"
    using k2 by (simp_all add: number_lengths_iff)
  have e1: "drop (5 + k1) s = drop k1 (drop 5 s)"
    by (simp add: add.commute)
  have e2: "?r = drop 6 (drop (5 + k1) s)"
    by (simp add: add.commute)
  have e3: "drop (11 + k1 + k2) s = drop k2 ?r"
    by (simp add: add.commute)
  have d1: "drop 5 s = take k1 (drop 5 s) @ drop (5 + k1) s"
    by (simp only: e1 append_take_drop_id)
  have d2: "drop (5 + k1) s = ascii '',True:'' @ ?r"
    by (simp only: e2 t [symmetric] append_take_drop_id)
  have d3: "?r = take k2 ?r @ drop (11 + k1 + k2) s"
    by (simp only: e3 append_take_drop_id)
  have fs: "fst st = drop (11 + k1 + k2) s" using st by simp
  have "s = take 5 s @ drop 5 s" by simp
  also have "\<dots> = ascii ''Pred:'' @ drop 5 s"
    by (simp only: p)
  also have "\<dots> = ascii ''Pred:'' @ take k1 (drop 5 s) @ drop (5 + k1) s"
    using d1 by (rule arg_cong)
  also have "\<dots> = ascii ''Pred:'' @ take k1 (drop 5 s) @ ascii '',True:'' @ ?r"
    using d2 by (rule arg_cong)
  also have "\<dots> = ascii ''Pred:'' @ take k1 (drop 5 s) @ ascii '',True:'' @ take k2 ?r
                  @ drop (11 + k1 + k2) s"
    using d3 by (rule arg_cong)
  finally have s: "s = ascii ''Pred:'' @ take k1 (drop 5 s) @ ascii '',True:'' @ take k2 ?r @ fst st"
    by (simp only: fs)
  have "length (take k2 ?r) = hd (number_lengths zs (take k2 ?r @ fst st))"
  proof -
    have "take k2 ?r @ fst st = ?r" by (simp only: fs d3 [symmetric])
    moreover have "length (take k2 ?r) = k2" using k2l by simp
    moreover have "hd (number_lengths zs ?r) = k2" using L by simp
    ultimately show ?thesis by simp
  qed
  moreover have "snd st = [(2, take k2 ?r), (1, take k1 (drop 5 s))]" using st by simp
  ultimately show ?thesis using s n1 n2 by blast
qed

lemma pattern_match_complete:
  assumes s: "s = ascii ''Pred:'' @ n1 @ ascii '',True:'' @ n2 @ post"
    and n1: "number_literal zs n1" and n2: "number_literal zs n2"
  shows "bt zs PATTERN (s, []) \<noteq> []"
proof -
  have l5: "length (ascii ''Pred:'') = 5" and l6: "length (ascii '',True:'') = 6"
    by (simp_all add: ascii_def)
  let ?F = "\<lambda>k1. if take 6 (drop (5 + k1) s) = ascii '',True:'' then
            map (\<lambda>k2. (drop (11 + k1 + k2) s,
                        [(2::nat, take k2 (drop (11 + k1) s)), (1, take k1 (drop 5 s))]))
              (number_lengths zs (drop (11 + k1) s))
          else []"
  have p: "take 5 s = ascii ''Pred:''" using s l5 by simp
  have d5: "drop 5 s = n1 @ ascii '',True:'' @ n2 @ post" using s l5 by simp
  have k1: "length n1 \<in> set (number_lengths zs (drop 5 s))"
    using n1 d5 by (simp add: number_lengths_iff)
  have d1: "drop (5 + length n1) s = ascii '',True:'' @ n2 @ post"
  proof -
    have "drop (5 + length n1) s = drop (length n1) (drop 5 s)" by (simp add: add.commute)
    also have "\<dots> = ascii '',True:'' @ n2 @ post" by (simp only: d5) simp
    finally show ?thesis .
  qed
  have t: "take 6 (drop (5 + length n1) s) = ascii '',True:''"
    using d1 l6 by simp
  have d2: "drop (11 + length n1) s = n2 @ post"
  proof -
    have "drop 6 (drop (5 + length n1) s) = n2 @ post" using d1 l6 by simp
    then show ?thesis by (simp add: add.commute)
  qed
  have k2: "length n2 \<in> set (number_lengths zs (drop (11 + length n1) s))"
    using n2 d2 by (simp add: number_lengths_iff)
  then have "number_lengths zs (drop (11 + length n1) s) \<noteq> []" by auto
  then have "?F (length n1) \<noteq> []" using t by simp
  then have "\<exists>x \<in> set (number_lengths zs (drop 5 s)). ?F x \<noteq> []"
    using k1 by blast
  then have "concat (map ?F (number_lengths zs (drop 5 s))) \<noteq> []"
    by (simp only: concat_eq_Nil_conv set_map) blast
  then show ?thesis using p by (simp add: bt_PATTERN del: bt.simps)
qed

lemma longest_literal:
  assumes "length n2 = hd (number_lengths zs (n2 @ post))"
    and "n2 @ post = m2 @ post'" and "number_literal zs m2"
  shows "length m2 \<le> length n2"
proof -
  have "length m2 \<in> set (number_lengths zs (n2 @ post))"
    using assms(2,3) by (simp add: number_lengths_iff)
  then show ?thesis using number_lengths_hd_max assms(1) by metis
qed

section \<open>Converting the matched numerals\<close>

lemma decimal_value_less: "decimal_value zs c = Some d \<Longrightarrow> d < 10"
proof -
  assume a: "decimal_value zs c = Some d"
  show ?thesis
  proof (cases "48 \<le> c \<and> c \<le> 57")
    case True
    then show ?thesis using a by (auto simp add: decimal_value_def)
  next
    case False
    then obtain z where "find (\<lambda>z. z \<le> c \<and> c < z + 10) zs = Some z" "d = c - z"
      using a by (auto simp add: decimal_value_def split: if_splits option.splits)
    then show ?thesis by (auto simp add: find_Some_iff)
  qed
qed

lemma decimal_not_space:
  assumes "digits_apart zs" and "is_decimal zs c" and "127 \<le> c"
  shows "\<not> is_space c"
proof -
  obtain d where d: "decimal_value zs c = Some d"
    using assms(2) by (auto simp add: is_decimal_def)
  then obtain z where "find (\<lambda>z. z \<le> c \<and> c < z + 10) zs = Some z"
    using assms(3) by (auto simp add: decimal_value_def split: if_splits option.splits)
  then have "z \<in> set zs" "z \<le> c" "c < z + 10"
    by (auto simp add: find_Some_iff)
  then show ?thesis
    using assms(1) by (auto simp add: digits_apart_def list_all_iff)
qed

lemma ascii_digit_ascii_of: "is_decimal zs c \<Longrightarrow> ascii_digit (ascii_of zs c)"
  using decimal_value_less [of zs c]
  by (auto simp add: is_decimal_def ascii_of_def ascii_digit_def)

lemma ascii_of_ascii: "c < 127 \<Longrightarrow> ascii_of zs c = c"
  by (auto simp add: ascii_of_def decimal_value_def)

lemma ascii_of_not_decimal: "\<not> is_decimal zs c \<Longrightarrow> ascii_of zs c = c"
  by (simp add: ascii_of_def is_decimal_def)

lemma float_ascii_literal_chars:
  assumes "digits_apart zs"
    and "\<forall>c \<in> set w. c < 127 \<or> is_decimal zs c"
  shows "float_ascii zs w = map (ascii_of zs) w"
  using assms(2)
proof (induction w)
  case Nil
  then show ?case by simp
next
  case (Cons c w)
  then have IH: "float_ascii zs w = map (ascii_of zs) w" by simp
  show ?case
  proof (cases "c < 127")
    case True
    then show ?thesis using IH by (simp add: ascii_of_ascii)
  next
    case False
    then have d: "is_decimal zs c" using Cons.prems by auto
    have "\<not> is_space c" using assms(1) d False by (intro decimal_not_space) simp_all
    then show ?thesis using False d IH
      by (auto simp add: is_decimal_def ascii_of_def)
  qed
qed

lemma drop_underscores_id:
  "95 \<notin> set t \<Longrightarrow> prev \<noteq> 95 \<Longrightarrow> drop_underscores prev t = Some t"
  by (induction t arbitrary: prev) simp_all

lemma dropWhile_id: "t = [] \<or> \<not> P (hd t) \<Longrightarrow> dropWhile P t = t"
  by (cases t) auto

lemma strip_ascii_id:
  "\<forall>c \<in> set t. \<not> ascii_space c \<Longrightarrow> strip_ascii t = t"
proof -
  assume a: "\<forall>c \<in> set t. \<not> ascii_space c"
  have 1: "dropWhile ascii_space t = t"
    using a by (intro dropWhile_id) (cases t, auto)
  have 2: "dropWhile ascii_space (rev t) = rev t"
    using a by (intro dropWhile_id) (cases "rev t", simp, metis list.sel(1) list.set_intros(1) set_rev)
  show ?thesis by (simp add: strip_ascii_def 1 2)
qed

lemma takeWhile_all: "list_all P ds \<Longrightarrow> takeWhile P ds = ds"
  by (simp add: list_all_iff)

lemma dropWhile_all: "list_all P ds \<Longrightarrow> dropWhile P ds = []"
  by (simp add: list_all_iff)

lemma takeWhile_stop: "list_all P ip \<Longrightarrow> \<not> P x \<Longrightarrow> takeWhile P (ip @ x # r) = ip"
  by (simp add: list_all_iff takeWhile_append2)

lemma dropWhile_stop: "list_all P ip \<Longrightarrow> \<not> P x \<Longrightarrow> dropWhile P (ip @ x # r) = x # r"
  by (simp add: list_all_iff dropWhile_append2)

lemma split_sign_append:
  assumes "sg = [] \<or> sg = [45] \<or> sg = [43]" and "r \<noteq> []" and "hd r \<noteq> 45" and "hd r \<noteq> 43"
  shows "split_sign (sg @ r) = (sg = [45], r)"
  using assms by (cases r) (auto simp add: split_sign_def)

lemma float_literal_fraction:
  assumes sg: "sg = [] \<or> sg = [45] \<or> sg = [43]"
    and ip: "list_all ascii_digit ip" and ne: "fp \<noteq> []" and fp: "list_all ascii_digit fp"
  shows "float_literal (sg @ ip @ 46 # fp)
         = Some (binary64 (sg = [45]) (digits_value (ip @ fp)) (10 ^ length fp))"
proof -
  let ?r = "ip @ 46 # fp"
  have n46: "\<not> ascii_digit 46" by (simp add: ascii_digit_def)
  have hd: "hd ?r \<noteq> 45 \<and> hd ?r \<noteq> 43"
    using ip by (cases ip) (auto simp add: ascii_digit_def)
  have ss: "split_sign (sg @ ?r) = (sg = [45], ?r)"
    using sg hd by (intro split_sign_append) simp_all
  have t1: "takeWhile ascii_digit ?r = ip" using ip n46 by (rule takeWhile_stop)
  have d1: "dropWhile ascii_digit ?r = 46 # fp" using ip n46 by (rule dropWhile_stop)
  have t2: "takeWhile ascii_digit fp = fp" using fp by (rule takeWhile_all)
  have d2: "dropWhile ascii_digit fp = []" using fp by (rule dropWhile_all)
  show ?thesis
    unfolding float_literal_def ss fst_conv snd_conv t1 d1 Let_def
    using ne by (simp add: t2 d2 exponent_def)
qed

lemma float_literal_integer:
  assumes sg: "sg = [] \<or> sg = [45] \<or> sg = [43]"
    and ne: "ds \<noteq> []" and ds: "list_all ascii_digit ds"
  shows "float_literal (sg @ ds) = Some (binary64 (sg = [45]) (digits_value ds) 1)"
proof -
  have hd: "hd ds \<noteq> 45 \<and> hd ds \<noteq> 43"
    using ds ne by (cases ds) (auto simp add: ascii_digit_def)
  have ss: "split_sign (sg @ ds) = (sg = [45], ds)"
    using sg ne hd by (intro split_sign_append) simp_all
  have t1: "takeWhile ascii_digit ds = ds" using ds by (rule takeWhile_all)
  have d1: "dropWhile ascii_digit ds = []" using ds by (rule dropWhile_all)
  show ?thesis
    unfolding float_literal_def ss fst_conv snd_conv t1 d1 Let_def
    using ne by (simp add: exponent_def)
qed

lemma numerator_digits:
  "list_all (is_decimal zs) ds \<Longrightarrow>
   foldl (\<lambda>v c. case decimal_value zs c of None \<Rightarrow> v | Some d \<Rightarrow> 10 * v + d) v ds
   = foldl (\<lambda>v c. 10 * v + (c - 48)) v (map (ascii_of zs) ds)"
proof (induction ds arbitrary: v)
  case Nil
  then show ?case by simp
next
  case (Cons c ds)
  then obtain d where "decimal_value zs c = Some d" by (auto simp add: is_decimal_def)
  then show ?case using Cons by (simp add: ascii_of_def)
qed

lemma numerator_sign:
  "sg = [] \<or> sg = [45] \<or> sg = [43] \<Longrightarrow>
   foldl (\<lambda>v c. case decimal_value zs c of None \<Rightarrow> v | Some d \<Rightarrow> 10 * v + d) v sg = v"
  by (auto simp add: decimal_value_def)

lemma literal_numerator_fraction:
  assumes "sg = [] \<or> sg = [45] \<or> sg = [43]"
    and "list_all (is_decimal zs) ip" and "list_all (is_decimal zs) fp"
  shows "literal_numerator zs (sg @ ip @ 46 # fp)
         = digits_value (map (ascii_of zs) ip @ map (ascii_of zs) fp)"
  using assms
  by (simp add: literal_numerator_def digits_value_def numerator_sign numerator_digits)
     (simp add: decimal_value_def)

lemma literal_numerator_integer:
  assumes "sg = [] \<or> sg = [45] \<or> sg = [43]" and "list_all (is_decimal zs) ds"
  shows "literal_numerator zs (sg @ ds) = digits_value (map (ascii_of zs) ds)"
  using assms
  by (simp add: literal_numerator_def digits_value_def numerator_sign numerator_digits)

lemma not_decimal_sign_point: "\<not> is_decimal zs 45" "\<not> is_decimal zs 43" "\<not> is_decimal zs 46"
  by (simp_all add: not_decimal_ascii)

lemma map_ascii_of_sign:
  "sg = [] \<or> sg = [45] \<or> sg = [43] \<Longrightarrow> map (ascii_of zs) sg = sg"
  by (auto simp add: ascii_of_ascii)

lemma plain_chars:
  assumes "sg = [] \<or> sg = [45] \<or> sg = [43]" and "list_all ascii_digit ds"
    and "c \<in> set (sg @ ds) \<or> c = 46"
  shows "c \<noteq> 95 \<and> \<not> ascii_space c"
  using assms by (auto simp add: list_all_iff ascii_digit_def ascii_space_def)

lemma py_float_plain:
  assumes "95 \<notin> set t" and "\<forall>c \<in> set t. \<not> ascii_space c"
    and "float_ascii zs w = t" and "float_literal t = Some x"
  shows "py_float zs w = Inr x"
  using assms by (simp add: py_float_def drop_underscores_id strip_ascii_id)

lemma hd_sign_append:
  assumes "sg = [] \<or> sg = [45] \<or> sg = [43]" and "r \<noteq> []" and "hd r \<noteq> 45"
  shows "(sg @ r \<noteq> [] \<and> hd (sg @ r) = 45) = (sg = [45])"
  using assms by auto

lemma py_float_numeral:
  assumes apart: "digits_apart zs" and num: "number_literal zs w"
  shows "py_float zs w = Inr (literal_float zs w)"
proof -
  have chars: "\<forall>c \<in> set w. c < 127 \<or> is_decimal zs c"
  proof
    fix c assume "c \<in> set w"
    from literal_chars [OF num this] show "c < 127 \<or> is_decimal zs c" by auto
  qed
  have fa: "float_ascii zs w = map (ascii_of zs) w"
    using apart chars by (rule float_ascii_literal_chars)
  from num consider "fraction_literal zs w" | "integer_literal zs w"
    unfolding number_literal_def by blast
  then show ?thesis
  proof cases
    case 1
    then obtain sg ip fp where w: "w = sg @ ip @ 46 # fp"
      and sg: "sg = [] \<or> sg = [45] \<or> sg = [43]"
      and ip: "list_all (is_decimal zs) ip" and ne: "fp \<noteq> []"
      and fp: "list_all (is_decimal zs) fp"
      using fraction_literal_split by blast
    let ?ip = "map (ascii_of zs) ip" and ?fp = "map (ascii_of zs) fp"
    let ?t = "sg @ ?ip @ 46 # ?fp"
    have aip: "list_all ascii_digit ?ip" using ip by (simp add: list_all_iff ascii_digit_ascii_of)
    have afp: "list_all ascii_digit ?fp" using fp by (simp add: list_all_iff ascii_digit_ascii_of)
    have t: "float_ascii zs w = ?t"
      using fa w sg by (simp add: map_ascii_of_sign ascii_of_ascii)
    have all: "list_all ascii_digit (?ip @ ?fp)" using aip afp by simp
    have pc: "c \<in> set ?t \<Longrightarrow> c \<noteq> 95 \<and> \<not> ascii_space c" for c
      using plain_chars [OF sg all, of c] by auto
    have lit: "float_literal ?t
               = Some (binary64 (sg = [45]) (digits_value (?ip @ ?fp)) (10 ^ length ?fp))"
      using sg aip _ afp by (rule float_literal_fraction) (simp add: ne)
    have r: "ip @ 46 # fp \<noteq> []" "hd (ip @ 46 # fp) \<noteq> 45"
      using ip not_decimal_sign_point(1) [of zs] by (cases ip; auto)+
    have neg: "(w \<noteq> [] \<and> hd w = 45) = (sg = [45])"
      unfolding w using sg r by (rule hd_sign_append)
    have no46: "46 \<notin> set (sg @ ip)"
      using sg ip not_decimal_sign_point(3) [of zs] by (auto simp add: list_all_iff)
    have "dropWhile (\<lambda>c. c \<noteq> 46) ((sg @ ip) @ 46 # fp) = 46 # fp"
      using no46 by (intro dropWhile_stop) (auto simp add: list_all_iff)
    then have places: "literal_places w = length fp"
      by (simp add: literal_places_def w)
    have nf: "literal_float zs w
              = binary64 (sg = [45]) (digits_value (?ip @ ?fp)) (10 ^ length ?fp)"
      unfolding literal_float_def neg places
      using literal_numerator_fraction [OF sg ip fp] by (simp add: w)
    show ?thesis
      using pc t lit unfolding nf by (intro py_float_plain [where t = ?t]) blast+
  next
    case 2
    then obtain sg ds where w: "w = sg @ ds"
      and sg: "sg = [] \<or> sg = [45] \<or> sg = [43]"
      and ne: "ds \<noteq> []" and ds: "list_all (is_decimal zs) ds"
      using integer_literal_split by blast
    let ?ds = "map (ascii_of zs) ds"
    let ?t = "sg @ ?ds"
    have ads: "list_all ascii_digit ?ds" using ds by (simp add: list_all_iff ascii_digit_ascii_of)
    have t: "float_ascii zs w = ?t"
      using fa w sg by (simp add: map_ascii_of_sign)
    have pc: "c \<in> set ?t \<Longrightarrow> c \<noteq> 95 \<and> \<not> ascii_space c" for c
      using plain_chars [OF sg ads, of c] by auto
    have lit: "float_literal ?t = Some (binary64 (sg = [45]) (digits_value ?ds) 1)"
      using sg _ ads by (rule float_literal_integer) (simp add: ne)
    have r: "hd ds \<noteq> 45"
      using ds ne not_decimal_sign_point(1) [of zs] by (cases ds) auto
    have neg: "(w \<noteq> [] \<and> hd w = 45) = (sg = [45])"
      unfolding w using sg ne r by (rule hd_sign_append)
    have no46: "46 \<notin> set w"
      unfolding w using sg ds not_decimal_sign_point(3) [of zs] by (auto simp add: list_all_iff)
    then have dw: "dropWhile (\<lambda>c. c \<noteq> 46) w = []" by auto
    have places: "literal_places w = 0"
      unfolding literal_places_def dw by simp
    have nf: "literal_float zs w = binary64 (sg = [45]) (digits_value ?ds) 1"
      unfolding literal_float_def neg places
      using literal_numerator_integer [OF sg ds] by (simp add: w)
    show ?thesis
      using pc t lit unfolding nf by (intro py_float_plain [where t = ?t]) blast+
  qed
qed

section \<open>Searching a line for the schema\<close>

lemma schema_at_drop:
  "schema_at zs t pre n1 n2 post \<Longrightarrow>
   drop (length pre) t = ascii ''Pred:'' @ n1 @ ascii '',True:'' @ n2 @ post \<and> length pre \<le> length t"
  by (simp add: schema_at_def)

lemma schema_matches:
  assumes "schema_at zs t pre n1 n2 post"
  shows "bt zs PATTERN (drop (length pre) t, []) \<noteq> []"
proof -
  have "drop (length pre) t = ascii ''Pred:'' @ n1 @ ascii '',True:'' @ n2 @ post"
    and "number_literal zs n1" and "number_literal zs n2"
    using assms by (simp_all add: schema_at_def)
  then show ?thesis by (rule pattern_match_complete)
qed

lemma re_search_None:
  "re_search zs PATTERN t = None \<longleftrightarrow> \<not> (\<exists>pre n1 n2 post. schema_at zs t pre n1 n2 post)"
proof
  assume n: "re_search zs PATTERN t = None"
  show "\<not> (\<exists>pre n1 n2 post. schema_at zs t pre n1 n2 post)"
  proof
    assume "\<exists>pre n1 n2 post. schema_at zs t pre n1 n2 post"
    then obtain pre n1 n2 post where s: "schema_at zs t pre n1 n2 post" by blast
    have "length pre \<le> length t" using s by (simp add: schema_at_def)
    then have "bt zs PATTERN (drop (length pre) t, []) = []"
      using n unfolding re_search_def search_from_None by blast
    then show False using schema_matches [OF s] by simp
  qed
next
  assume a: "\<not> (\<exists>pre n1 n2 post. schema_at zs t pre n1 n2 post)"
  have "bt zs PATTERN (drop k t, []) = []" if "k \<le> length t" for k
  proof (cases "bt zs PATTERN (drop k t, [])")
    case Nil
    then show ?thesis .
  next
    case (Cons st rest)
    from pattern_match_sound [OF this] obtain n1 n2 where
      d: "drop k t = ascii ''Pred:'' @ n1 @ ascii '',True:'' @ n2 @ fst st"
      and "number_literal zs n1" "number_literal zs n2" by blast
    moreover have "t = take k t @ drop k t" by simp
    ultimately have "schema_at zs t (take k t) n1 n2 (fst st)"
      unfolding schema_at_def by metis
    then show ?thesis using a by blast
  qed
  then show "re_search zs PATTERN t = None"
    unfolding re_search_def search_from_None by blast
qed

lemma re_search_Some:
  assumes "re_search zs PATTERN t = Some m"
  shows "\<exists>pre n1 n2 post. schema_at zs t pre n1 n2 post \<and> fst m = length pre
           \<and> snd m = [(2, n2), (1, n1)]
           \<and> (\<forall>pre' m1 m2 post'. schema_at zs t pre' m1 m2 post' \<longrightarrow> length pre \<le> length pre')
           \<and> (\<forall>m2 post'. n2 @ post = m2 @ post' \<and> number_literal zs m2 \<longrightarrow> length m2 \<le> length n2)"
proof -
  obtain j g where m: "m = (j, g)" by (cases m)
  from assms obtain k st rest where k: "j = k" "k \<le> length t"
    and b: "bt zs PATTERN (drop k t, []) = st # rest" and g: "g = snd st"
    and least: "\<forall>k' < k. bt zs PATTERN (drop k' t, []) = []"
    unfolding re_search_def m using search_from_Some [of zs PATTERN 0 t j g] by auto
  from pattern_match_sound [OF b] obtain n1 n2 where
    d: "drop k t = ascii ''Pred:'' @ n1 @ ascii '',True:'' @ n2 @ fst st"
    and n1: "number_literal zs n1" and n2: "number_literal zs n2"
    and gs: "snd st = [(2, n2), (1, n1)]"
    and hd: "length n2 = hd (number_lengths zs (n2 @ fst st))" by blast
  have "t = take k t @ drop k t" by simp
  then have sch: "schema_at zs t (take k t) n1 n2 (fst st)"
    unfolding schema_at_def using d n1 n2 by metis
  have len: "length (take k t) = k" using k(2) by simp
  have first: "length (take k t) \<le> length pre'" if "schema_at zs t pre' m1 m2 post'"
    for pre' m1 m2 post'
  proof (rule ccontr)
    assume "\<not> length (take k t) \<le> length pre'"
    then have "length pre' < k" using len by simp
    then have "bt zs PATTERN (drop (length pre') t, []) = []" using least by blast
    then show False using schema_matches [OF that] by simp
  qed
  have longest: "length m2 \<le> length n2" if "n2 @ fst st = m2 @ post'" "number_literal zs m2"
    for m2 post'
    using hd that by (rule longest_literal)
  show ?thesis
    using sch len first longest gs g k(1) m
    by (intro exI [of _ "take k t"] exI [of _ n1] exI [of _ n2] exI [of _ "fst st"]) auto
qed

section \<open>Example lines, evaluated\<close>

text \<open>
  Definitions with local bindings are unfolded before the arithmetic is done, so that the
  simplifier meets numbers only.
\<close>

lemmas eval_text = decoded_line_def decode_utf8_ignore_def octets_def ascii_def py_strip_def
  is_space_def

lemmas eval_search = re_search_def PATTERN_def number_rx_def sign_rx_def one_char_def star_def
  capture_def is_decimal_def decimal_value_def group_def

lemmas eval_float = ascii_def strip_ascii_def ascii_space_def ascii_digit_def split_sign_def
  digits_value_def bit_length.simps

lemma example_search_1:
  "re_search zs PATTERN (decoded_line (octets ''Pred:0.50,True:0.52''))
   = Some (0, [(2, ascii ''0.52''), (1, ascii ''0.50'')])"
  by (simp add: eval_text eval_search)

lemma example_search_3:
  "re_search zs PATTERN (decoded_line (octets ''Pred:-0.10,True:-0.08''))
   = Some (0, [(2, ascii ''-0.08''), (1, ascii ''-0.10'')])"
  by (simp add: eval_text eval_search)

lemma example_binary64:
  "binary64 False 50 100 = Finite False 4503599627370496 (- 53)"
  "binary64 False 52 100 = Finite False 4683743612465316 (- 53)"
  "binary64 True 10 100 = Finite True 7205759403792794 (- 56)"
  "binary64 True 8 100 = Finite True 5764607523034235 (- 56)"
  "binary64 False 2 100 = Finite False 5764607523034235 (- 58)"
  unfolding binary64_def scaled_def round_half_even_def Let_def
  by (simp_all add: bit_length.simps)

lemma example_floats:
  "py_float zs (ascii ''0.50'') = Inr (Finite False 4503599627370496 (- 53))"
  "py_float zs (ascii ''0.52'') = Inr (Finite False 4683743612465316 (- 53))"
  "py_float zs (ascii ''-0.10'') = Inr (Finite True 7205759403792794 (- 56))"
  "py_float zs (ascii ''-0.08'') = Inr (Finite True 5764607523034235 (- 56))"
  "py_float zs (ascii ''0.02'') = Inr (Finite False 5764607523034235 (- 58))"
  by (simp_all add: py_float_def float_literal_def exponent_def Let_def eval_float
      example_binary64)

lemma example_line_1:
  "parse_line zs (octets ''Pred:0.50,True:0.52'')
   = Inr (Some (Finite False 4503599627370496 (- 53), Finite False 4683743612465316 (- 53)))"
  by (simp add: parse_line_def example_search_1 group_def example_floats)

lemma example_line_2: "parse_line zs (octets ''garbage'') = Inr None"
  by (simp add: parse_line_def eval_text eval_search)

lemma example_line_3:
  "parse_line zs (octets ''Pred:-0.10,True:-0.08'')
   = Inr (Some (Finite True 7205759403792794 (- 56), Finite True 5764607523034235 (- 56)))"
  by (simp add: parse_line_def example_search_3 group_def example_floats)

lemma digits_apart_example: "digits_apart [1632]"
  by (simp add: digits_apart_def is_space_def)

section \<open>What the parser accepts\<close>

lemma group_two_one: "snd m = [(2, n2), (1, n1)] \<Longrightarrow> group m 1 = n1 \<and> group m 2 = n2"
  by (simp add: group_def)

lemma parse_line_match:
  assumes "digits_apart zs" and "re_search zs PATTERN (decoded_line bs) = Some m"
    and "snd m = [(2, n2), (1, n1)]" and "number_literal zs n1" and "number_literal zs n2"
  shows "parse_line zs bs = Inr (Some (literal_float zs n1, literal_float zs n2))"
  using assms(2) group_two_one [OF assms(3)]
    py_float_numeral [OF assms(1,4)] py_float_numeral [OF assms(1,5)]
  by (simp add: parse_line_def)

lemma parse_line_no_match:
  "re_search zs PATTERN (decoded_line bs) = None \<Longrightarrow> parse_line zs bs = Inr None"
  by (simp add: parse_line_def)

lemma parse_line_Some_search:
  "parse_line zs bs = Inr (Some v) \<Longrightarrow> \<exists>m. re_search zs PATTERN (decoded_line bs) = Some m"
  by (cases "re_search zs PATTERN (decoded_line bs)") (simp_all add: parse_line_def)

text \<open>
  C2. A line yields a sample exactly when its text, decoded and stripped, holds the token
  \<^verbatim>\<open>Pred:\<close>, a numeral right after it, the token \<^verbatim>\<open>,True:\<close> and a second numeral, whatever
  stands before and after. The sample is then read at the first place in the line where
  this holds, the second numeral taken as long as it can be, and its two values are the
  floating-point numbers nearest to what the two numerals denote. A line that does not hold
  the schema yields no sample and no error.
\<close>

theorem parse_line_schema:
  assumes "digits_apart zs"
  shows "((\<exists>v. parse_line zs bs = Inr (Some v))
          \<longleftrightarrow> (\<exists>pre n1 n2 post. schema_at zs (decoded_line bs) pre n1 n2 post))
       \<and> (\<forall>p a. parse_line zs bs = Inr (Some (p, a)) \<longrightarrow>
            (\<exists>pre n1 n2 post. schema_at zs (decoded_line bs) pre n1 n2 post
               \<and> p = literal_float zs n1 \<and> a = literal_float zs n2
               \<and> (\<forall>pre' m1 m2 post'. schema_at zs (decoded_line bs) pre' m1 m2 post'
                     \<longrightarrow> length pre \<le> length pre')
               \<and> (\<forall>m2 post'. n2 @ post = m2 @ post' \<and> number_literal zs m2
                     \<longrightarrow> length m2 \<le> length n2)))
       \<and> (\<not> (\<exists>pre n1 n2 post. schema_at zs (decoded_line bs) pre n1 n2 post)
            \<longrightarrow> parse_line zs bs = Inr None)"
proof -
  let ?t = "decoded_line bs"
  have none: "\<not> (\<exists>pre n1 n2 post. schema_at zs ?t pre n1 n2 post) \<Longrightarrow> parse_line zs bs = Inr None"
    using re_search_None [of zs ?t] parse_line_no_match by blast
  have some: "\<exists>pre n1 n2 post. schema_at zs ?t pre n1 n2 post
               \<and> parse_line zs bs = Inr (Some (literal_float zs n1, literal_float zs n2))
               \<and> (\<forall>pre' m1 m2 post'. schema_at zs ?t pre' m1 m2 post' \<longrightarrow> length pre \<le> length pre')
               \<and> (\<forall>m2 post'. n2 @ post = m2 @ post' \<and> number_literal zs m2
                     \<longrightarrow> length m2 \<le> length n2)"
    if "re_search zs PATTERN ?t = Some m" for m
  proof -
    from re_search_Some [OF that] obtain pre n1 n2 post where
      s: "schema_at zs ?t pre n1 n2 post" and g: "snd m = [(2, n2), (1, n1)]"
      and f: "\<forall>pre' m1 m2 post'. schema_at zs ?t pre' m1 m2 post' \<longrightarrow> length pre \<le> length pre'"
      and l: "\<forall>m2 post'. n2 @ post = m2 @ post' \<and> number_literal zs m2 \<longrightarrow> length m2 \<le> length n2"
      by blast
    have "number_literal zs n1" "number_literal zs n2" using s by (simp_all add: schema_at_def)
    then have "parse_line zs bs = Inr (Some (literal_float zs n1, literal_float zs n2))"
      using parse_line_match [OF assms that g] by simp
    then show ?thesis using s f l by blast
  qed
  have iff: "(\<exists>v. parse_line zs bs = Inr (Some v))
             \<longleftrightarrow> (\<exists>pre n1 n2 post. schema_at zs ?t pre n1 n2 post)"
  proof
    assume "\<exists>v. parse_line zs bs = Inr (Some v)"
    then obtain m where "re_search zs PATTERN ?t = Some m" using parse_line_Some_search by blast
    from some [OF this] show "\<exists>pre n1 n2 post. schema_at zs ?t pre n1 n2 post" by blast
  next
    assume "\<exists>pre n1 n2 post. schema_at zs ?t pre n1 n2 post"
    then have "re_search zs PATTERN ?t \<noteq> None" using re_search_None [of zs ?t] by blast
    then obtain m where "re_search zs PATTERN ?t = Some m" by blast
    from some [OF this] show "\<exists>v. parse_line zs bs = Inr (Some v)" by blast
  qed
  have val: "\<exists>pre n1 n2 post. schema_at zs ?t pre n1 n2 post
               \<and> p = literal_float zs n1 \<and> a = literal_float zs n2
               \<and> (\<forall>pre' m1 m2 post'. schema_at zs ?t pre' m1 m2 post' \<longrightarrow> length pre \<le> length pre')
               \<and> (\<forall>m2 post'. n2 @ post = m2 @ post' \<and> number_literal zs m2
                     \<longrightarrow> length m2 \<le> length n2)"
    if p: "parse_line zs bs = Inr (Some (p, a))" for p a
  proof -
    obtain m where "re_search zs PATTERN ?t = Some m" using parse_line_Some_search [OF p] by blast
    from some [OF this] obtain pre n1 n2 post where
      s: "schema_at zs ?t pre n1 n2 post"
      and e: "parse_line zs bs = Inr (Some (literal_float zs n1, literal_float zs n2))"
      and f: "\<forall>pre' m1 m2 post'. schema_at zs ?t pre' m1 m2 post' \<longrightarrow> length pre \<le> length pre'"
      and l: "\<forall>m2 post'. n2 @ post = m2 @ post' \<and> number_literal zs m2 \<longrightarrow> length m2 \<le> length n2"
      by blast
    have "p = literal_float zs n1" "a = literal_float zs n2" using p e by simp_all
    then show ?thesis using s f l by blast
  qed
  show ?thesis using iff val none by blast
qed

theorem parse_line_schema_witness:
  "digits_apart [1632]
   \<and> parse_line [1632] (octets ''Pred:0.50,True:0.52'')
       = Inr (Some (Finite False 4503599627370496 (- 53), Finite False 4683743612465316 (- 53)))
   \<and> (\<exists>pre n1 n2 post.
         schema_at [1632] (decoded_line (octets ''Pred:0.50,True:0.52'')) pre n1 n2 post
         \<and> Finite False 4503599627370496 (- 53) = literal_float [1632] n1
         \<and> Finite False 4683743612465316 (- 53) = literal_float [1632] n2)
   \<and> \<not> (\<exists>pre n1 n2 post. schema_at [1632] (decoded_line (octets ''garbage'')) pre n1 n2 post)
   \<and> parse_line [1632] (octets ''garbage'') = Inr None"
proof -
  have a: "digits_apart [1632]" by (rule digits_apart_example)
  have e1: "parse_line [1632] (octets ''Pred:0.50,True:0.52'')
       = Inr (Some (Finite False 4503599627370496 (- 53), Finite False 4683743612465316 (- 53)))"
    by (rule example_line_1)
  have e2: "parse_line [1632] (octets ''garbage'') = Inr None"
    by (rule example_line_2)
  have s1: "\<exists>pre n1 n2 post.
         schema_at [1632] (decoded_line (octets ''Pred:0.50,True:0.52'')) pre n1 n2 post
         \<and> Finite False 4503599627370496 (- 53) = literal_float [1632] n1
         \<and> Finite False 4683743612465316 (- 53) = literal_float [1632] n2"
    using parse_line_schema [OF a, of "octets ''Pred:0.50,True:0.52''"] e1 by blast
  have s2: "\<not> (\<exists>pre n1 n2 post. schema_at [1632] (decoded_line (octets ''garbage'')) pre n1 n2 post)"
    using parse_line_schema [OF a, of "octets ''garbage''"] e2 by auto
  show ?thesis using a e1 e2 s1 s2 by blast
qed

section \<open>The loop and its deques\<close>

lemma running_already_False: "\<not> running s \<Longrightarrow> s\<lparr>running := False\<rparr> = s"
  by (rule pstate.equality) simp_all

lemma while_not_running: "\<not> running s \<Longrightarrow> while_running zs es s = (Exited, s)"
proof (induction es)
  case Nil
  then show ?case by simp
next
  case (Cons e es)
  then show ?case by (cases e) (simp_all add: running_already_False)
qed

lemma deque_of_snoc: "deque_of n (xs @ [x]) = deque_append n (deque_of n xs) x"
  by (simp add: deque_of_def)

lemma deque_of_drop: "deque_of n xs = drop (length xs - n) xs"
  by (simp add: deque_of_def foldl_deque_append)

lemma map_deque_of: "map f (deque_of n xs) = deque_of n (map f xs)"
  by (simp add: deque_of_drop drop_map)

lemma length_deque_of: "length (deque_of n xs) = min n (length xs)"
  by (simp add: deque_of_drop)

lemma aligned_store_sample: "aligned ws s \<Longrightarrow> aligned (ws @ [v]) (store_sample v s)"
  by (simp add: aligned_def store_sample_def count_up_def append_x_def append_true_def
      append_pred_def deque_of_snoc)

lemma store_sample_running [simp]: "running (store_sample v s) = running s"
  by (simp add: store_sample_def count_up_def append_x_def append_true_def append_pred_def)

lemma store_sample_ser [simp]: "ser (store_sample v s) = ser s"
  by (simp add: store_sample_def count_up_def append_x_def append_true_def append_pred_def)

lemma aligned_running: "aligned ws (s\<lparr>running := b\<rparr>) = aligned ws s"
  by (simp add: aligned_def)

lemma while_running_aligned:
  "aligned ws s \<Longrightarrow>
   aligned (ws @ samples_read zs es (running s)) (snd (while_running zs es s))"
proof (induction es arbitrary: s ws)
  case Nil
  then show ?case by simp
next
  case (Cons e es)
  show ?case
  proof (cases e)
    case Shutdown
    have "aligned ws (s\<lparr>running := False\<rparr>)" using Cons.prems by (simp add: aligned_running)
    from Cons.IH [OF this] show ?thesis using Shutdown by simp
  next
    case (Readline r)
    show ?thesis
    proof (cases "running s")
      case False
      then show ?thesis using Readline Cons.prems by simp
    next
      case True
      show ?thesis
      proof (cases r)
        case (ReadRaises x)
        then show ?thesis using Readline True Cons.prems by simp
      next
        case (Line bs)
        show ?thesis
        proof (cases "parse_line zs bs")
          case (Inl x)
          then show ?thesis using Readline True Line Cons.prems by (simp add: iteration_def)
        next
          case (Inr q)
          show ?thesis
          proof (cases q)
            case None
            then show ?thesis
              using Readline True Line Inr Cons.IH [OF Cons.prems] by (simp add: iteration_def)
          next
            case (Some v)
            have a: "aligned (ws @ [v]) (store_sample v s)"
              using Cons.prems by (rule aligned_store_sample)
            from Cons.IH [OF a] show ?thesis
              using Readline True Line Inr Some by (simp add: iteration_def)
          qed
        qed
      qed
    qed
  qed
qed

lemma aligned_initial: "aligned [] loop_entry"
  by (simp add: aligned_def loop_entry_def initial_def deque_of_def)

lemma samples_read_lines:
  "\<forall>bs \<in> set bss. \<forall>e. parse_line zs bs \<noteq> Inl e \<Longrightarrow>
   samples_read zs (line_events bss) True = samples_of zs bss"
proof (induction bss)
  case Nil
  then show ?case by (simp add: line_events_def samples_of_def)
next
  case (Cons bs bss)
  then have IH: "samples_read zs (line_events bss) True = samples_of zs bss" by simp
  have "\<forall>e. parse_line zs bs \<noteq> Inl e" using Cons.prems by simp
  then show ?case using IH
    by (cases "parse_line zs bs") (auto simp add: line_events_def samples_of_def split: option.splits)
qed

section \<open>Runs of the reader thread\<close>

lemma finally_block_Inr:
  "finally_block s =
     Inr (if ser s = Some True then s\<lparr>ser := Some False, running := False\<rparr>
          else s\<lparr>running := False\<rparr>)"
  by (cases "ser s") (auto simp add: finally_block_def load_ser_def)

lemma leave_state:
  "snd (leave out s) =
     (if out = Waiting then s
      else if ser s = Some True then s\<lparr>ser := Some False, running := False\<rparr>
      else s\<lparr>running := False\<rparr>)"
  by (cases out) (simp_all add: leave_def finally_block_Inr)

lemma leave_status:
  "fst (leave out s) =
     (case out of
        Waiting \<Rightarrow> Alive
      | Exited \<Rightarrow> Returned
      | Raised e \<Rightarrow> if e = SerialException then Returned else Died e)"
  by (cases out) (simp_all add: leave_def finally_block_Inr)

lemma aligned_leave: "aligned ws (snd (leave out s)) = aligned ws s"
  by (simp add: leave_state aligned_def)

lemma read_serial_Opened:
  "read_serial zs Opened es initial
   = leave (fst (while_running zs es loop_entry)) (snd (while_running zs es loop_entry))"
  by (simp add: read_serial_def loop_entry_def)

lemma read_serial_aligned:
  "aligned (samples_read zs es True) (snd (read_serial zs Opened es initial))"
proof -
  have "running loop_entry" by (simp add: loop_entry_def initial_def)
  then have "aligned (samples_read zs es True) (snd (while_running zs es loop_entry))"
    using while_running_aligned [OF aligned_initial, of zs es] by simp
  then show ?thesis by (simp add: read_serial_Opened aligned_leave)
qed

lemma parse_line_total:
  assumes "digits_apart zs"
  shows "\<exists>r. parse_line zs bs = Inr r"
proof (cases "re_search zs PATTERN (decoded_line bs)")
  case None
  then show ?thesis by (simp add: parse_line_no_match)
next
  case (Some m)
  from re_search_Some [OF this] obtain pre n1 n2 post where
    "schema_at zs (decoded_line bs) pre n1 n2 post" "snd m = [(2, n2), (1, n1)]" by blast
  then show ?thesis
    using parse_line_match [OF assms Some, of n2 n1] by (simp add: schema_at_def)
qed

lemma iteration_cases:
  "parse_line zs bs = Inr None \<Longrightarrow> iteration zs bs s = Inr s"
  "parse_line zs bs = Inr (Some v) \<Longrightarrow> iteration zs bs s = Inr (store_sample v s)"
  by (simp_all add: iteration_def)

lemma store_sample_x:
  "data_x (store_sample v s) = deque_append MAX_POINTS (data_x s) (counter s)"
  "counter (store_sample v s) = counter s + 1"
  by (simp_all add: store_sample_def count_up_def append_x_def append_true_def append_pred_def)

lemma example_samples_read:
  "samples_read zs
     (line_events [octets ''Pred:0.50,True:0.52'', octets ''garbage'',
                   octets ''Pred:-0.10,True:-0.08'']) True
   = [(Finite False 4503599627370496 (- 53), Finite False 4683743612465316 (- 53)),
      (Finite True 7205759403792794 (- 56), Finite True 5764607523034235 (- 56))]"
  by (simp add: line_events_def example_line_1 example_line_2 example_line_3)

lemma example_samples_of:
  "samples_of zs
     [octets ''Pred:0.50,True:0.52'', octets ''garbage'', octets ''Pred:-0.10,True:-0.08'']
   = [(Finite False 4503599627370496 (- 53), Finite False 4683743612465316 (- 53)),
      (Finite True 7205759403792794 (- 56), Finite True 5764607523034235 (- 56))]"
  by (simp add: samples_of_def example_line_1 example_line_2 example_line_3)

lemma example_run:
  "while_running zs
     (line_events [octets ''Pred:0.50,True:0.52'', octets ''garbage'',
                   octets ''Pred:-0.10,True:-0.08'']) loop_entry
   = (Waiting,
      \<lparr>data_pred = [Finite False 4503599627370496 (- 53), Finite True 7205759403792794 (- 56)],
       data_true = [Finite False 4683743612465316 (- 53), Finite True 5764607523034235 (- 56)],
       data_x = [0, 1], running = True, ser = Some True, counter = 2\<rparr>)"
  by (simp add: line_events_def loop_entry_def initial_def iteration_def example_line_1
      example_line_2 example_line_3 store_sample_def count_up_def append_x_def append_true_def
      append_pred_def deque_append_def MAX_POINTS_def)

text \<open>
  C3. Whatever lines arrive, malformed ones among them or not, the sequence indices appended
  are 0, 1, 2, ... in this order, one for each line that parses: after a stream of lines
  the deque \<^verbatim>\<open>data_x\<close> is what appending 0, ..., n - 1 leaves, n being the number of lines of
  the stream that hold a sample, and the counter stands at n. A line that parses appends
  the counter and raises it by one; a line that does not leaves the counter and the deque
  as they were.
\<close>

theorem sequence_numbers:
  assumes "digits_apart zs"
  shows "data_x (snd (read_serial zs Opened (line_events bss) initial))
           = deque_of MAX_POINTS [0..<length (samples_of zs bss)]
       \<and> counter (snd (read_serial zs Opened (line_events bss) initial))
           = length (samples_of zs bss)
       \<and> data_x (snd (read_serial zs Opened es initial))
           = deque_of MAX_POINTS [0..<counter (snd (read_serial zs Opened es initial))]
       \<and> (parse_line zs bs = Inr None \<longrightarrow> iteration zs bs s = Inr s)
       \<and> (\<forall>v. parse_line zs bs = Inr (Some v) \<longrightarrow>
             (\<exists>s'. iteration zs bs s = Inr s'
                \<and> data_x s' = deque_append MAX_POINTS (data_x s) (counter s)
                \<and> counter s' = counter s + 1))"
proof -
  have noraise: "\<forall>bs \<in> set bss. \<forall>e. parse_line zs bs \<noteq> Inl e"
    using parse_line_total [OF assms] by (metis Inl_Inr_False)
  have sr: "samples_read zs (line_events bss) True = samples_of zs bss"
    using noraise by (rule samples_read_lines)
  have a: "aligned (samples_of zs bss) (snd (read_serial zs Opened (line_events bss) initial))"
    using read_serial_aligned [of zs "line_events bss"] by (simp only: sr)
  have b: "aligned (samples_read zs es True) (snd (read_serial zs Opened es initial))"
    by (rule read_serial_aligned)
  have 1: "data_x (snd (read_serial zs Opened (line_events bss) initial))
           = deque_of MAX_POINTS [0..<length (samples_of zs bss)]"
    using a by (simp add: aligned_def)
  have 2: "counter (snd (read_serial zs Opened (line_events bss) initial))
           = length (samples_of zs bss)"
    using a by (simp add: aligned_def)
  have 3: "data_x (snd (read_serial zs Opened es initial))
           = deque_of MAX_POINTS [0..<counter (snd (read_serial zs Opened es initial))]"
    using b by (simp add: aligned_def)
  have 4: "parse_line zs bs = Inr None \<longrightarrow> iteration zs bs s = Inr s"
    by (simp add: iteration_cases)
  have 5: "\<forall>v. parse_line zs bs = Inr (Some v) \<longrightarrow>
             (\<exists>s'. iteration zs bs s = Inr s'
                \<and> data_x s' = deque_append MAX_POINTS (data_x s) (counter s)
                \<and> counter s' = counter s + 1)"
    by (simp add: iteration_cases store_sample_x)
  show ?thesis using 1 2 3 4 5 by blast
qed

theorem sequence_numbers_witness:
  "digits_apart [1632]
   \<and> data_x (snd (read_serial [1632] Opened
         (line_events [octets ''Pred:0.50,True:0.52'', octets ''garbage'',
                       octets ''Pred:-0.10,True:-0.08'']) initial)) = [0, 1]
   \<and> counter (snd (read_serial [1632] Opened
         (line_events [octets ''Pred:0.50,True:0.52'', octets ''garbage'',
                       octets ''Pred:-0.10,True:-0.08'']) initial)) = 2
   \<and> parse_line [1632] (octets ''garbage'') = Inr None
   \<and> iteration [1632] (octets ''garbage'') loop_entry = Inr loop_entry
   \<and> parse_line [1632] (octets ''Pred:0.50,True:0.52'')
       = Inr (Some (Finite False 4503599627370496 (- 53), Finite False 4683743612465316 (- 53)))
   \<and> (\<exists>s'. iteration [1632] (octets ''Pred:0.50,True:0.52'') loop_entry = Inr s'
          \<and> data_x s' = [0] \<and> counter s' = 1)"
proof -
  have a: "digits_apart [1632]" by (rule digits_apart_example)
  have g: "parse_line [1632] (octets ''garbage'') = Inr None" by (rule example_line_2)
  have l: "parse_line [1632] (octets ''Pred:0.50,True:0.52'')
       = Inr (Some (Finite False 4503599627370496 (- 53), Finite False 4683743612465316 (- 53)))"
    by (rule example_line_1)
  have d: "deque_of MAX_POINTS [0..<2] = [0, 1]"
    by (simp add: deque_of_drop numeral_2_eq_2 MAX_POINTS_def)
  have e: "deque_append MAX_POINTS (data_x loop_entry) (counter loop_entry) = [0]"
    by (simp add: deque_append_def MAX_POINTS_def loop_entry_def initial_def)
  have c: "counter loop_entry + 1 = 1" by (simp add: loop_entry_def)
  note t1 = sequence_numbers [OF a,
      of "[octets ''Pred:0.50,True:0.52'', octets ''garbage'', octets ''Pred:-0.10,True:-0.08'']"
         "[]" "octets ''garbage''" loop_entry]
  note t2 = sequence_numbers [OF a, of "[]" "[]" "octets ''Pred:0.50,True:0.52''" loop_entry]
  have len: "length (samples_of [1632]
      [octets ''Pred:0.50,True:0.52'', octets ''garbage'', octets ''Pred:-0.10,True:-0.08'']) = 2"
    by (simp add: example_samples_of)
  have 1: "data_x (snd (read_serial [1632] Opened
         (line_events [octets ''Pred:0.50,True:0.52'', octets ''garbage'',
                       octets ''Pred:-0.10,True:-0.08'']) initial)) = [0, 1]"
    using conjunct1 [OF t1] by (simp only: len d)
  have 2: "counter (snd (read_serial [1632] Opened
         (line_events [octets ''Pred:0.50,True:0.52'', octets ''garbage'',
                       octets ''Pred:-0.10,True:-0.08'']) initial)) = 2"
    using conjunct1 [OF conjunct2 [OF t1]] by (simp only: len)
  have 3: "iteration [1632] (octets ''garbage'') loop_entry = Inr loop_entry"
    using t1 g by blast
  have 4: "\<exists>s'. iteration [1632] (octets ''Pred:0.50,True:0.52'') loop_entry = Inr s'
          \<and> data_x s' = [0] \<and> counter s' = 1"
    using t2 l e c by auto
  show ?thesis using a g l 1 2 3 4 by blast
qed

text \<open>
  C10. Whenever the loop condition is evaluated, that is after any number of complete turns,
  the three deques are equally long and hold, place by place, the predicted value, the
  actual value and the sequence index of the samples retained: the last \<open>MAX_POINTS\<close> of
  the samples parsed so far.
\<close>

theorem deques_in_step:
  "length (data_pred (snd (while_running zs es loop_entry)))
     = length (data_x (snd (while_running zs es loop_entry)))
   \<and> length (data_true (snd (while_running zs es loop_entry)))
     = length (data_x (snd (while_running zs es loop_entry)))
   \<and> data_pred (snd (while_running zs es loop_entry))
     = map (fst \<circ> fst) (retained (samples_read zs es True))
   \<and> data_true (snd (while_running zs es loop_entry))
     = map (snd \<circ> fst) (retained (samples_read zs es True))
   \<and> data_x (snd (while_running zs es loop_entry))
     = map snd (retained (samples_read zs es True))
   \<and> (\<forall>i < length (data_x (snd (while_running zs es loop_entry))).
        ((data_pred (snd (while_running zs es loop_entry)) ! i,
          data_true (snd (while_running zs es loop_entry)) ! i),
         data_x (snd (while_running zs es loop_entry)) ! i)
        = retained (samples_read zs es True) ! i)"
proof -
  let ?s = "snd (while_running zs es loop_entry)"
  let ?vs = "samples_read zs es True"
  let ?r = "retained ?vs"
  have "running loop_entry" by (simp add: loop_entry_def initial_def)
  then have al: "aligned ?vs ?s"
    using while_running_aligned [OF aligned_initial, of zs es] by simp
  have z1: "map fst (zip ?vs [0..<length ?vs]) = ?vs" by (simp add: map_fst_zip)
  have z2: "map snd (zip ?vs [0..<length ?vs]) = [0..<length ?vs]" by (simp add: map_snd_zip)
  have m1: "map (fst \<circ> fst) (zip ?vs [0..<length ?vs]) = map fst ?vs"
    by (metis z1 map_map)
  have m2: "map (snd \<circ> fst) (zip ?vs [0..<length ?vs]) = map snd ?vs"
    by (metis z1 map_map)
  have p: "data_pred ?s = map (fst \<circ> fst) ?r"
    using al by (simp only: retained_def map_deque_of m1 aligned_def)
  have t: "data_true ?s = map (snd \<circ> fst) ?r"
    using al by (simp only: retained_def map_deque_of m2 aligned_def)
  have x: "data_x ?s = map snd ?r"
  proof -
    have "map snd ?r = deque_of MAX_POINTS (map snd (zip ?vs [0..<length ?vs]))"
      by (simp add: retained_def map_deque_of)
    then show ?thesis using al by (simp only: z2 aligned_def)
  qed
  have l1: "length (data_pred ?s) = length (data_x ?s)" by (simp add: p x)
  have l2: "length (data_true ?s) = length (data_x ?s)" by (simp add: t x)
  have nth: "\<forall>i < length (data_x ?s).
        ((data_pred ?s ! i, data_true ?s ! i), data_x ?s ! i) = ?r ! i"
    by (simp add: p t x prod_eq_iff)
  show ?thesis using l1 l2 p t x nth by blast
qed

theorem deques_in_step_witness:
  "1 < length (data_x (snd (while_running [1632]
         (line_events [octets ''Pred:0.50,True:0.52'', octets ''garbage'',
                       octets ''Pred:-0.10,True:-0.08'']) loop_entry)))
   \<and> ((data_pred (snd (while_running [1632]
         (line_events [octets ''Pred:0.50,True:0.52'', octets ''garbage'',
                       octets ''Pred:-0.10,True:-0.08'']) loop_entry)) ! 1,
        data_true (snd (while_running [1632]
         (line_events [octets ''Pred:0.50,True:0.52'', octets ''garbage'',
                       octets ''Pred:-0.10,True:-0.08'']) loop_entry)) ! 1),
       data_x (snd (while_running [1632]
         (line_events [octets ''Pred:0.50,True:0.52'', octets ''garbage'',
                       octets ''Pred:-0.10,True:-0.08'']) loop_entry)) ! 1)
     = ((Finite True 7205759403792794 (- 56), Finite True 5764607523034235 (- 56)), 1)"
proof -
  let ?es = "line_events [octets ''Pred:0.50,True:0.52'', octets ''garbage'',
                       octets ''Pred:-0.10,True:-0.08'']"
  have r: "retained (samples_read [1632] ?es True)
           = [((Finite False 4503599627370496 (- 53), Finite False 4683743612465316 (- 53)), 0),
              ((Finite True 7205759403792794 (- 56), Finite True 5764607523034235 (- 56)), 1)]"
    by (simp add: example_samples_read retained_def deque_of_def deque_append_def MAX_POINTS_def)
  have l: "1 < length (data_x (snd (while_running [1632] ?es loop_entry)))"
    using deques_in_step [of "[1632]" ?es] by (simp add: r)
  then show ?thesis
    using deques_in_step [of "[1632]" ?es] by (simp add: r)
qed

text \<open>
  C8. Parsing never raises. Whatever octets a line is made of, the parse step ends with a
  sample or with none: the text of a group that the pattern has matched is always one that
  \<^verbatim>\<open>float\<close> converts, so that the \<^verbatim>\<open>ValueError\<close> it raises on other texts cannot occur. A line
  that does not parse changes nothing, and the loop goes on with the next event.
\<close>

theorem parse_never_raises:
  assumes "digits_apart zs"
  shows "(\<exists>r. parse_line zs bs = Inr r)
       \<and> (\<forall>m. re_search zs PATTERN (decoded_line bs) = Some m \<longrightarrow>
             (\<exists>x y. py_float zs (group m 1) = Inr x \<and> py_float zs (group m 2) = Inr y))
       \<and> (\<exists>s'. iteration zs bs s = Inr s')
       \<and> (parse_line zs bs = Inr None \<longrightarrow>
             iteration zs bs s = Inr s
             \<and> while_running zs (Readline (Line bs) # es) s = while_running zs es s)"
proof -
  have 1: "\<exists>r. parse_line zs bs = Inr r" using assms by (rule parse_line_total)
  have 2: "\<exists>x y. py_float zs (group m 1) = Inr x \<and> py_float zs (group m 2) = Inr y"
    if m: "re_search zs PATTERN (decoded_line bs) = Some m" for m
  proof -
    from re_search_Some [OF m] obtain pre n1 n2 post where
      s: "schema_at zs (decoded_line bs) pre n1 n2 post" and g: "snd m = [(2, n2), (1, n1)]"
      by blast
    have "number_literal zs n1" "number_literal zs n2" using s by (simp_all add: schema_at_def)
    then show ?thesis
      using group_two_one [OF g] py_float_numeral [OF assms] by simp
  qed
  have 3: "\<exists>s'. iteration zs bs s = Inr s'"
    using 1 by (auto simp add: iteration_def split: option.splits)
  have 4: "iteration zs bs s = Inr s
           \<and> while_running zs (Readline (Line bs) # es) s = while_running zs es s"
    if n: "parse_line zs bs = Inr None"
  proof (cases "running s")
    case True
    then show ?thesis using n by (simp add: iteration_cases)
  next
    case False
    then show ?thesis using n by (simp add: iteration_cases while_not_running)
  qed
  show ?thesis using 1 2 3 4 by blast
qed

theorem parse_never_raises_witness:
  "digits_apart [1632]
   \<and> (\<exists>m. re_search [1632] PATTERN (decoded_line (octets ''Pred:0.50,True:0.52'')) = Some m
         \<and> (\<exists>x y. py_float [1632] (group m 1) = Inr x \<and> py_float [1632] (group m 2) = Inr y))
   \<and> parse_line [1632] (octets ''garbage'') = Inr None
   \<and> iteration [1632] (octets ''garbage'') loop_entry = Inr loop_entry
   \<and> while_running [1632] [Readline (Line (octets ''garbage'')), Shutdown] loop_entry
       = while_running [1632] [Shutdown] loop_entry"
proof -
  have a: "digits_apart [1632]" by (rule digits_apart_example)
  have g: "parse_line [1632] (octets ''garbage'') = Inr None" by (rule example_line_2)
  have "\<exists>v. parse_line [1632] (octets ''Pred:0.50,True:0.52'') = Inr (Some v)"
    by (simp add: example_line_1)
  then obtain m where
    m: "re_search [1632] PATTERN (decoded_line (octets ''Pred:0.50,True:0.52'')) = Some m"
    using parse_line_Some_search by blast
  have 1: "\<exists>x y. py_float [1632] (group m 1) = Inr x \<and> py_float [1632] (group m 2) = Inr y"
    using parse_never_raises [OF a, of "octets ''Pred:0.50,True:0.52''" loop_entry "[]"] m
    by blast
  have 2: "iteration [1632] (octets ''garbage'') loop_entry = Inr loop_entry
       \<and> while_running [1632] [Readline (Line (octets ''garbage'')), Shutdown] loop_entry
           = while_running [1632] [Shutdown] loop_entry"
    using parse_never_raises [OF a, of "octets ''garbage''" loop_entry "[Shutdown]"] g
    by blast
  show ?thesis using a g m 1 2 by blast
qed

lemma while_running_shutdown:
  "while_running zs (es @ Shutdown # later) s = while_running zs (es @ [Shutdown]) s
   \<and> fst (while_running zs (es @ [Shutdown]) s) \<noteq> Waiting"
proof (induction es arbitrary: s)
  case Nil
  then show ?case by (simp add: while_not_running)
next
  case (Cons e es)
  show ?case
  proof (cases e)
    case Shutdown
    then show ?thesis using Cons.IH by simp
  next
    case (Readline r)
    show ?thesis
    proof (cases r)
      case (Line bs)
      then show ?thesis using Readline Cons.IH by (simp split: sum.splits)
    next
      case (ReadRaises x)
      then show ?thesis using Readline by simp
    qed
  qed
qed

text \<open>
  C5. Once the main thread has cleared \<^verbatim>\<open>running\<close> and the reader thread has been joined, the
  deques stay as they are: the thread has left the loop and has ended, and whatever the
  port delivers afterwards, be it lines or failures, the state the thread has left is the
  same, so that the deques read at any two later moments are equal.
\<close>

theorem no_append_after_shutdown:
  "fst (read_serial zs opn (es @ [Shutdown]) s) \<noteq> Alive
   \<and> read_serial zs opn (es @ Shutdown # later) s = read_serial zs opn (es @ [Shutdown]) s
   \<and> data_pred (snd (read_serial zs opn (es @ Shutdown # later) s))
       = data_pred (snd (read_serial zs opn (es @ Shutdown # later') s))
   \<and> data_true (snd (read_serial zs opn (es @ Shutdown # later) s))
       = data_true (snd (read_serial zs opn (es @ Shutdown # later') s))
   \<and> data_x (snd (read_serial zs opn (es @ Shutdown # later) s))
       = data_x (snd (read_serial zs opn (es @ Shutdown # later') s))"
proof -
  have eq: "read_serial zs opn (es @ Shutdown # m) s = read_serial zs opn (es @ [Shutdown]) s"
    for m
    using while_running_shutdown [of zs es m "s\<lparr>ser := Some True, counter := 0\<rparr>"]
    by (cases opn) (simp_all add: read_serial_def)
  have st: "fst (read_serial zs opn (es @ [Shutdown]) s) \<noteq> Alive"
  proof (cases opn)
    case Opened
    have "fst (while_running zs (es @ [Shutdown]) (s\<lparr>ser := Some True, counter := 0\<rparr>)) \<noteq> Waiting"
      using while_running_shutdown [of zs es "[]"] by simp
    then show ?thesis using Opened
      by (simp add: read_serial_def leave_status split: outcome.splits)
  next
    case (OpenRaises e)
    then show ?thesis by (simp add: read_serial_def leave_status)
  qed
  show ?thesis using st eq [of later] eq [of later'] by simp
qed

theorem no_append_after_shutdown_witness:
  "fst (read_serial [] Opened ([Readline (Line (octets ''garbage''))] @ [Shutdown]) initial)
     \<noteq> Alive
   \<and> read_serial [] Opened
       ([Readline (Line (octets ''garbage''))] @ Shutdown
          # [Readline (Line (octets ''Pred:0.50,True:0.52''))]) initial
     = read_serial [] Opened ([Readline (Line (octets ''garbage''))] @ [Shutdown]) initial
   \<and> data_x (snd (read_serial [] Opened
       ([Readline (Line (octets ''garbage''))] @ Shutdown
          # [Readline (Line (octets ''Pred:0.50,True:0.52''))]) initial)) = []"
proof -
  note t = no_append_after_shutdown [of "[]" Opened "[Readline (Line (octets ''garbage''))]"
      initial "[Readline (Line (octets ''Pred:0.50,True:0.52''))]" "[]"]
  have "data_x (snd (read_serial [] Opened ([Readline (Line (octets ''garbage''))] @ [Shutdown])
      initial)) = []"
    by (simp add: read_serial_def iteration_def example_line_2 leave_state initial_def)
  then show ?thesis using t by simp
qed

text \<open>
  C6. However the loop is left, by the flag, by a failure of the port or by any other
  exception, the \<^verbatim>\<open>finally\<close> block has run when the thread ends: a port that was opened is
  then closed and \<^verbatim>\<open>running\<close> is cleared. While the thread is still in the loop the port is
  open. When opening the port itself fails, no port is bound, the block skips the close
  and raises nothing: the thread returns after a \<^verbatim>\<open>SerialException\<close> and ends with the
  exception that was raised otherwise. The block never raises an error of its own.
\<close>

theorem port_closed_on_exit:
  "(fst (read_serial zs opn es s) \<noteq> Alive \<longrightarrow>
      ser (snd (read_serial zs opn es s)) \<noteq> Some True
      \<and> \<not> running (snd (read_serial zs opn es s)))
   \<and> (opn = Opened \<longrightarrow> fst (read_serial zs opn es s) \<noteq> Alive \<longrightarrow>
        ser (snd (read_serial zs opn es s)) = Some False)
   \<and> (fst (read_serial zs opn es s) = Alive \<longrightarrow>
        opn = Opened \<and> ser (snd (read_serial zs opn es s)) = Some True)
   \<and> (\<forall>e. opn = OpenRaises e \<longrightarrow>
        ser (snd (read_serial zs opn es s)) = None
        \<and> fst (read_serial zs opn es s) = (if e = SerialException then Returned else Died e))
   \<and> (\<exists>s'. finally_block s = Inr s')"
proof -
  have keep: "ser (snd (while_running zs es t)) = ser t" for t
  proof (induction es arbitrary: t)
    case Nil
    then show ?case by simp
  next
    case (Cons e es)
    show ?case
    proof (cases e)
      case Shutdown
      then show ?thesis using Cons.IH [of "t\<lparr>running := False\<rparr>"] by simp
    next
      case (Readline r)
      show ?thesis
      proof (cases r)
        case (Line bs)
        then show ?thesis using Readline Cons.IH
          by (auto simp add: iteration_def split: sum.splits option.splits)
      next
        case (ReadRaises x)
        then show ?thesis using Readline by simp
      qed
    qed
  qed
  have fin: "\<exists>s'. finally_block s = Inr s'" by (simp add: finally_block_Inr)
  show ?thesis
  proof (cases opn)
    case Opened
    let ?w = "while_running zs es (s\<lparr>ser := Some True, counter := 0\<rparr>)"
    have o: "ser (snd ?w) = Some True" using keep [of "s\<lparr>ser := Some True, counter := 0\<rparr>"] by simp
    have r: "read_serial zs opn es s = leave (fst ?w) (snd ?w)"
      using Opened by (simp add: read_serial_def)
    have al: "fst (leave (fst ?w) (snd ?w)) = Alive \<longleftrightarrow> fst ?w = Waiting"
      by (cases "fst ?w") (simp_all add: leave_status)
    show ?thesis
      using Opened o fin unfolding r al by (simp add: leave_state)
  next
    case (OpenRaises e)
    then show ?thesis using fin
      by (simp add: read_serial_def leave_state leave_status)
  qed
qed

theorem port_closed_on_exit_witness:
  "fst (read_serial [] Opened [Readline (ReadRaises SerialException)] initial) \<noteq> Alive
   \<and> ser (snd (read_serial [] Opened [Readline (ReadRaises SerialException)] initial))
       = Some False
   \<and> \<not> running (snd (read_serial [] Opened [Readline (ReadRaises SerialException)] initial))
   \<and> fst (read_serial [] Opened [] initial) = Alive
   \<and> ser (snd (read_serial [] Opened [] initial)) = Some True
   \<and> ser (snd (read_serial [] (OpenRaises SerialException) [] initial)) = None
   \<and> fst (read_serial [] (OpenRaises SerialException) [] initial) = Returned"
proof -
  have a: "fst (read_serial [] Opened [Readline (ReadRaises SerialException)] initial) \<noteq> Alive"
    by (simp add: read_serial_def leave_status initial_def)
  have b: "fst (read_serial [] Opened [] initial) = Alive"
    by (simp add: read_serial_def leave_status initial_def)
  note t1 = port_closed_on_exit [of "[]" Opened "[Readline (ReadRaises SerialException)]" initial]
  note t2 = port_closed_on_exit [of "[]" Opened "[]" initial]
  note t3 = port_closed_on_exit [of "[]" "OpenRaises SerialException" "[]" initial]
  have 1: "ser (snd (read_serial [] Opened [Readline (ReadRaises SerialException)] initial))
       = Some False"
    using t1 a by blast
  have 2: "\<not> running (snd (read_serial [] Opened [Readline (ReadRaises SerialException)] initial))"
    using t1 a by blast
  have 3: "ser (snd (read_serial [] Opened [] initial)) = Some True"
    using t2 b by blast
  have 4: "ser (snd (read_serial [] (OpenRaises SerialException) [] initial)) = None
       \<and> fst (read_serial [] (OpenRaises SerialException) [] initial) = Returned"
    using t3 by simp
  show ?thesis using a b 1 2 3 4 by blast
qed

section \<open>The example of three lines\<close>

lemma example_error:
  "fabs (fsub (Finite True 7205759403792794 (- 56)) (Finite True 5764607523034235 (- 56)))
   = Finite False 5764607523034236 (- 58)"
  unfolding fsub.simps fabs.simps binary64_def scaled_def round_half_even_def Let_def
  by (simp add: bit_length.simps)

lemma example_format:
  "format_4f (Finite False 5764607523034236 (- 58)) = ascii ''0.0200''"
  unfolding format_4f.simps scaled_def round_half_even_def Let_def
  by (simp add: decimal_digits.simps ascii_def)

lemma example_literals:
  "literal_float zs (ascii ''0.50'') = Finite False 4503599627370496 (- 53)"
  "literal_float zs (ascii ''0.52'') = Finite False 4683743612465316 (- 53)"
  "literal_float zs (ascii ''-0.10'') = Finite True 7205759403792794 (- 56)"
  "literal_float zs (ascii ''-0.08'') = Finite True 5764607523034235 (- 56)"
  "literal_float zs (ascii ''0.02'') = Finite False 5764607523034235 (- 58)"
  by (simp_all add: literal_float_def literal_numerator_def literal_places_def ascii_def
      decimal_value_def example_binary64 numeral_2_eq_2 [symmetric])

lemma example_update:
  "update
     \<lparr>data_pred = [Finite False 4503599627370496 (- 53), Finite True 7205759403792794 (- 56)],
      data_true = [Finite False 4683743612465316 (- 53), Finite True 5764607523034235 (- 56)],
      data_x = [0, 1], running = True, ser = Some True, counter = 2\<rparr> p
   = Inr (\<lparr>data_pred = [Finite False 4503599627370496 (- 53), Finite True 7205759403792794 (- 56)],
          data_true = [Finite False 4683743612465316 (- 53), Finite True 5764607523034235 (- 56)],
          data_x = [0, 1], running = True, ser = Some True, counter = 2\<rparr>,
         p\<lparr>line_pred := (Range 2, Live DataPred), line_true := (Range 2, Live DataTrue),
           xlim := Some (0, 2), error_text := ascii ''Current Error: 0.0200''\<rparr>)"
  unfolding update_def Let_def last_item_def
  by (simp add: example_error example_format del: fsub.simps fabs.simps format_4f.simps)
     (simp add: ascii_def)

lemma example_format_0_02:
  "format_4f (Finite False 5764607523034235 (- 58)) = ascii ''0.0200''"
  unfolding format_4f.simps scaled_def round_half_even_def Let_def
  by (simp add: decimal_digits.simps ascii_def)

text \<open>
  C9. The three lines give exactly two samples, with the sequence indices 0 and 1 and with
  the floating-point numbers that 0.50 and 0.52, and -0.10 and -0.08 denote; the line
  between them gives none. The absolute error of the second sample is 0.02: the plot shows
  it as \<^verbatim>\<open>Current Error: 0.0200\<close>, the text that the number 0.02 itself is shown as. In
  floating point the error is 5764607523034236 / 2 ^ 58, next to 5764607523034235 / 2 ^ 58,
  which is the number nearest to 0.02; the format of line 118 gives both the same four
  places.
\<close>

theorem three_lines_example:
  "while_running zs
     (line_events [octets ''Pred:0.50,True:0.52'', octets ''garbage'',
                   octets ''Pred:-0.10,True:-0.08'']) loop_entry
   = (Waiting,
      \<lparr>data_pred = [literal_float zs (ascii ''0.50''), literal_float zs (ascii ''-0.10'')],
       data_true = [literal_float zs (ascii ''0.52''), literal_float zs (ascii ''-0.08'')],
       data_x = [0, 1], running = True, ser = Some True, counter = 2\<rparr>)
   \<and> error_text (snd (projr (update (snd (while_running zs
         (line_events [octets ''Pred:0.50,True:0.52'', octets ''garbage'',
                       octets ''Pred:-0.10,True:-0.08'']) loop_entry)) initial_plot)))
       = ascii ''Current Error: 0.0200''
   \<and> format_4f (fabs (fsub (literal_float zs (ascii ''-0.10''))
         (literal_float zs (ascii ''-0.08''))))
       = format_4f (literal_float zs (ascii ''0.02''))
   \<and> format_4f (literal_float zs (ascii ''0.02'')) = ascii ''0.0200''
   \<and> fabs (fsub (literal_float zs (ascii ''-0.10'')) (literal_float zs (ascii ''-0.08'')))
       = Finite False 5764607523034236 (- 58)
   \<and> literal_float zs (ascii ''0.02'') = Finite False 5764607523034235 (- 58)"
  unfolding example_literals example_run example_error snd_conv example_update
    example_format example_format_0_02
  by simp

section \<open>Between the statements of a turn\<close>

lemma deque_of_empty_iff: "deque_of MAX_POINTS xs = [] \<longleftrightarrow> xs = []"
  by (cases xs) (simp_all add: deque_of_drop MAX_POINTS_def)

lemma update_hands_over:
  assumes "data_x st = [] \<or> (data_pred st \<noteq> [] \<and> data_true st \<noteq> [])"
  shows "\<exists>p'. update st p = Inr (st, p')
           \<and> (data_x st \<noteq> [] \<longrightarrow>
                line_pred p' = (Range (length (data_x st)), Live DataPred)
                \<and> line_true p' = (Range (length (data_x st)), Live DataTrue))"
  using assms by (auto simp add: update_def last_item_def Let_def)

lemma turn_states_deques:
  assumes "aligned ws s"
  shows "data_pred (turn_states v s ! 1) = deque_of MAX_POINTS (map fst (ws @ [v]))"
    and "data_true (turn_states v s ! 1) = deque_of MAX_POINTS (map snd ws)"
    and "data_x (turn_states v s ! 1) = deque_of MAX_POINTS [0..<length ws]"
    and "data_pred (turn_states v s ! 2) = deque_of MAX_POINTS (map fst (ws @ [v]))"
    and "data_true (turn_states v s ! 2) = deque_of MAX_POINTS (map snd (ws @ [v]))"
    and "data_x (turn_states v s ! 2) = deque_of MAX_POINTS [0..<length ws]"
    and "data_pred (turn_states v s ! 3) = deque_of MAX_POINTS (map fst (ws @ [v]))"
    and "data_true (turn_states v s ! 3) = deque_of MAX_POINTS (map snd (ws @ [v]))"
    and "data_x (turn_states v s ! 3) = deque_of MAX_POINTS [0..<Suc (length ws)]"
  using assms
  by (simp_all add: turn_states_def aligned_def append_pred_def append_true_def append_x_def
      deque_of_snoc del: upt_Suc)
     (simp_all add: deque_of_snoc [symmetric])

lemma example_run_1:
  "while_running zs (line_events [octets ''Pred:0.50,True:0.52'']) loop_entry
   = (Waiting,
      \<lparr>data_pred = [Finite False 4503599627370496 (- 53)],
       data_true = [Finite False 4683743612465316 (- 53)],
       data_x = [0], running = True, ser = Some True, counter = 1\<rparr>)"
  by (simp add: line_events_def loop_entry_def initial_def iteration_def example_line_1
      store_sample_def count_up_def append_x_def append_true_def append_pred_def
      deque_append_def MAX_POINTS_def)

lemma example_torn_error:
  "fabs (fsub (Finite True 7205759403792794 (- 56)) (Finite False 4683743612465316 (- 53)))
   = Finite False 5584463537939415 (- 53)"
  unfolding fsub.simps fabs.simps binary64_def scaled_def round_half_even_def Let_def
  by (simp add: bit_length.simps)

lemma example_torn_format:
  "format_4f (Finite False 5584463537939415 (- 53)) = ascii ''0.6200''"
  unfolding format_4f.simps scaled_def round_half_even_def Let_def
  by (simp add: decimal_digits.simps ascii_def)

lemma example_torn_update:
  "update
     \<lparr>data_pred = [Finite False 4503599627370496 (- 53), Finite True 7205759403792794 (- 56)],
      data_true = [Finite False 4683743612465316 (- 53)],
      data_x = [0], running = True, ser = Some True, counter = 1\<rparr> p
   = Inr (\<lparr>data_pred = [Finite False 4503599627370496 (- 53), Finite True 7205759403792794 (- 56)],
          data_true = [Finite False 4683743612465316 (- 53)],
          data_x = [0], running = True, ser = Some True, counter = 1\<rparr>,
         p\<lparr>line_pred := (Range 1, Live DataPred), line_true := (Range 1, Live DataTrue),
           xlim := Some (0, 1), error_text := ascii ''Current Error: 0.6200''\<rparr>)"
  unfolding update_def Let_def last_item_def
  by (simp add: example_torn_error example_torn_format del: fsub.simps fabs.simps format_4f.simps)
     (simp add: ascii_def)

text \<open>
  C4. The claim holds between the turns of the loop and not inside one. When a turn that
  stores a sample begins, the deques hold whole samples, the windows of one history, and
  when it has ended they hold the windows of the history with the new sample: a callback
  that runs then misses no sample that has been stored. After line 62 the predicted value
  of the new sample is in its deque while the actual value and the sequence index are not;
  after line 63 the sequence index alone is missing; after line 64 the three deques are in
  step again. In each of these states the callback raises nothing, leaves the deques as
  they are and hands the plot the deques themselves, over a range as long as \<^verbatim>\<open>data_x\<close>.
\<close>

theorem snapshot_between_statements:
  assumes "aligned ws s"
  shows "aligned ws (turn_states v s ! 0)
       \<and> aligned (ws @ [v]) (turn_states v s ! 4)
       \<and> data_pred (turn_states v s ! 1) = deque_of MAX_POINTS (map fst (ws @ [v]))
       \<and> data_true (turn_states v s ! 1) = deque_of MAX_POINTS (map snd ws)
       \<and> data_x (turn_states v s ! 1) = deque_of MAX_POINTS [0..<length ws]
       \<and> data_pred (turn_states v s ! 2) = deque_of MAX_POINTS (map fst (ws @ [v]))
       \<and> data_true (turn_states v s ! 2) = deque_of MAX_POINTS (map snd (ws @ [v]))
       \<and> data_x (turn_states v s ! 2) = deque_of MAX_POINTS [0..<length ws]
       \<and> data_pred (turn_states v s ! 3) = deque_of MAX_POINTS (map fst (ws @ [v]))
       \<and> data_true (turn_states v s ! 3) = deque_of MAX_POINTS (map snd (ws @ [v]))
       \<and> data_x (turn_states v s ! 3) = deque_of MAX_POINTS [0..<Suc (length ws)]
       \<and> (\<forall>st \<in> set (turn_states v s).
            \<exists>p'. update st p = Inr (st, p')
              \<and> (data_x st \<noteq> [] \<longrightarrow>
                   line_pred p' = (Range (length (data_x st)), Live DataPred)
                   \<and> line_true p' = (Range (length (data_x st)), Live DataTrue)))"
proof -
  let ?U = "\<lambda>st. \<exists>p'. update st p = Inr (st, p')
              \<and> (data_x st \<noteq> [] \<longrightarrow>
                   line_pred p' = (Range (length (data_x st)), Live DataPred)
                   \<and> line_true p' = (Range (length (data_x st)), Live DataTrue))"
  have a0: "aligned ws (turn_states v s ! 0)"
    using assms by (simp add: turn_states_def)
  have a4: "aligned (ws @ [v]) (turn_states v s ! 4)"
    using aligned_store_sample [OF assms, of v] by (simp add: turn_states_def)
  note d = turn_states_deques [OF assms, of v]
  have new: "deque_of MAX_POINTS (map f (ws @ [v])) \<noteq> []" for f :: "pyfloat \<times> pyfloat \<Rightarrow> pyfloat"
    by (simp add: deque_of_empty_iff)
  have old: "deque_of MAX_POINTS [0..<length ws] \<noteq> [] \<Longrightarrow> deque_of MAX_POINTS (map f ws) \<noteq> []"
    for f :: "pyfloat \<times> pyfloat \<Rightarrow> pyfloat"
    by (simp add: deque_of_empty_iff)
  have s0: "data_pred s = deque_of MAX_POINTS (map fst ws)"
    "data_true s = deque_of MAX_POINTS (map snd ws)"
    "data_x s = deque_of MAX_POINTS [0..<length ws]"
    using assms by (simp_all add: aligned_def)
  have u0: "?U (turn_states v s ! 0)"
    using old [of fst] old [of snd] s0 by (intro update_hands_over) (auto simp add: turn_states_def)
  have u1: "?U (turn_states v s ! 1)"
    using new [of fst] old [of snd] d(1-3) by (intro update_hands_over) auto
  have u2: "?U (turn_states v s ! 2)"
    using new [of fst] new [of snd] d(4-6) by (intro update_hands_over) auto
  have u3: "?U (turn_states v s ! 3)"
    using new [of fst] new [of snd] d(7-9) by (intro update_hands_over) auto
  have u4: "?U (turn_states v s ! 4)"
    using new [of fst] new [of snd] a4 by (intro update_hands_over) (auto simp add: aligned_def)
  have mem: "st \<in> set (turn_states v s) \<Longrightarrow> st = turn_states v s ! 0 \<or> st = turn_states v s ! 1
      \<or> st = turn_states v s ! 2 \<or> st = turn_states v s ! 3 \<or> st = turn_states v s ! 4" for st
    unfolding turn_states_def by (simp add: numeral_eq_Suc)
  have all: "\<forall>st \<in> set (turn_states v s). ?U st"
    using mem u0 u1 u2 u3 u4 by blast
  show ?thesis using a0 a4 d all by blast
qed

theorem snapshot_between_statements_witness:
  "aligned [(Finite False 4503599627370496 (- 53), Finite False 4683743612465316 (- 53))]
     \<lparr>data_pred = [Finite False 4503599627370496 (- 53)],
      data_true = [Finite False 4683743612465316 (- 53)],
      data_x = [0], running = True, ser = Some True, counter = 1\<rparr>
   \<and> data_pred (turn_states
         (Finite True 7205759403792794 (- 56), Finite True 5764607523034235 (- 56))
         \<lparr>data_pred = [Finite False 4503599627370496 (- 53)],
          data_true = [Finite False 4683743612465316 (- 53)],
          data_x = [0], running = True, ser = Some True, counter = 1\<rparr> ! 1)
       = [Finite False 4503599627370496 (- 53), Finite True 7205759403792794 (- 56)]
   \<and> data_true (turn_states
         (Finite True 7205759403792794 (- 56), Finite True 5764607523034235 (- 56))
         \<lparr>data_pred = [Finite False 4503599627370496 (- 53)],
          data_true = [Finite False 4683743612465316 (- 53)],
          data_x = [0], running = True, ser = Some True, counter = 1\<rparr> ! 1)
       = [Finite False 4683743612465316 (- 53)]"
proof -
  let ?a = "Finite False 4503599627370496 (- 53)"
  let ?b = "Finite False 4683743612465316 (- 53)"
  let ?s = "\<lparr>data_pred = [?a], data_true = [?b], data_x = [0], running = True,
             ser = Some True, counter = 1\<rparr>"
  let ?v = "(Finite True 7205759403792794 (- 56), Finite True 5764607523034235 (- 56))"
  have a: "aligned [(?a, ?b)] ?s"
    by (simp add: aligned_def deque_of_drop MAX_POINTS_def)
  show ?thesis
    using snapshot_between_statements [OF a, of ?v initial_plot] a
    by (simp add: deque_of_drop MAX_POINTS_def)
qed

text \<open>
  C4 as it is stated fails. With the sample of \<^verbatim>\<open>Pred:0.50,True:0.52\<close> stored and the line
  \<^verbatim>\<open>Pred:-0.10,True:-0.08\<close> parsed, the state after line 62 has two predicted values, one
  actual value and one index: the predicted value of the second sample is there without
  the rest of it. The callback that runs in this state plots two predicted values over a
  range of length one, and line 117 takes the predicted value of the second sample and the
  actual value of the first: the error shown is 0.6200, where each of the two samples has
  the error 0.0200.
\<close>

theorem snapshot_sees_torn_sample:
  "turn_states (literal_float [] (ascii ''-0.10''), literal_float [] (ascii ''-0.08''))
     (snd (while_running [] (line_events [octets ''Pred:0.50,True:0.52'']) loop_entry)) ! 1
   = \<lparr>data_pred = [literal_float [] (ascii ''0.50''), literal_float [] (ascii ''-0.10'')],
      data_true = [literal_float [] (ascii ''0.52'')],
      data_x = [0], running = True, ser = Some True, counter = 1\<rparr>
   \<and> update
       \<lparr>data_pred = [literal_float [] (ascii ''0.50''), literal_float [] (ascii ''-0.10'')],
        data_true = [literal_float [] (ascii ''0.52'')],
        data_x = [0], running = True, ser = Some True, counter = 1\<rparr> initial_plot
     = Inr (\<lparr>data_pred = [literal_float [] (ascii ''0.50''), literal_float [] (ascii ''-0.10'')],
             data_true = [literal_float [] (ascii ''0.52'')],
             data_x = [0], running = True, ser = Some True, counter = 1\<rparr>,
            initial_plot\<lparr>line_pred := (Range 1, Live DataPred),
              line_true := (Range 1, Live DataTrue), xlim := Some (0, 1),
              error_text := ascii ''Current Error: 0.6200''\<rparr>)
   \<and> length (data_pred (turn_states
         (literal_float [] (ascii ''-0.10''), literal_float [] (ascii ''-0.08''))
         (snd (while_running [] (line_events [octets ''Pred:0.50,True:0.52'']) loop_entry)) ! 1))
       \<noteq> length (data_true (turn_states
         (literal_float [] (ascii ''-0.10''), literal_float [] (ascii ''-0.08''))
         (snd (while_running [] (line_events [octets ''Pred:0.50,True:0.52'']) loop_entry)) ! 1))"
  unfolding example_literals example_run_1 snd_conv example_torn_update
  by (simp add: turn_states_def append_pred_def deque_append_def MAX_POINTS_def)

end
